theory Spec2Isabelle
  imports Complex_Main "HOL-Library.Sublist"
begin

section \<open>Data model of \<^verbatim>\<open>src/app/page.tsx\<close>\<close>

text \<open>
  The interface \<^verbatim>\<open>FileNode\<close> has the fields \<^verbatim>\<open>name\<close>, \<^verbatim>\<open>type\<close>, the optional
  \<^verbatim>\<open>children\<close> and \<^verbatim>\<open>path\<close>. An absent \<^verbatim>\<open>children\<close> field is \<open>None\<close>.
  Strings are lists of characters; the builder only compares them and cuts them at
  the separator, so the width of a character plays no role.
\<close>

datatype node_type = File | Directory

datatype FileNode =
  FileNode (name: string) (type: node_type) (children: "FileNode list option") (path: string)

text \<open>
  The component state: the mapping \<^verbatim>\<open>files\<close> handed out by the hook (a JavaScript
  \<^verbatim>\<open>Map\<close>, here the list of its entries in iteration order), and the three
  \<^verbatim>\<open>useState\<close> cells. The browser's file object is opaque: the type \<open>'f\<close>.
\<close>

record 'f page_state =
  files :: "(string \<times> 'f) list"
  fileTree :: "FileNode option"
  selectedFile :: "'f option"
  isLoading :: bool

section \<open>String helpers of the host language\<close>

text \<open>\<^verbatim>\<open>path.split("/")\<close>: cut at every separator; the result is never empty.\<close>

fun split :: "string \<Rightarrow> string list" where
  "split [] = [[]]"
| "split (c # cs) =
     (if c = CHR ''/'' then [] # split cs
      else (c # hd (split cs)) # tl (split cs))"

text \<open>\<^verbatim>\<open>parts.join("/")\<close>.\<close>

fun join :: "string list \<Rightarrow> string" where
  "join [] = []"
| "join [x] = x"
| "join (x # y # ys) = x @ ''/'' @ join (y # ys)"

text \<open>
  \<^verbatim>\<open>children.find(c => c.name === part)\<close> is \<^const>\<open>find\<close> of the list library. The
  object it returns is then mutated in place; in the model the first child that
  satisfies the test is replaced by its new value.
\<close>

fun replace_first :: "('a \<Rightarrow> bool) \<Rightarrow> 'a \<Rightarrow> 'a list \<Rightarrow> 'a list" where
  "replace_first P y [] = []"
| "replace_first P y (x # xs) = (if P x then y # xs else x # replace_first P y xs)"

section \<open>The tree builder\<close>

text \<open>
  The inner loop \<^verbatim>\<open>parts.forEach((part, index) => ...)\<close> for one path. The loop state
  is \<^verbatim>\<open>current\<close> together with the position in \<^verbatim>\<open>parts\<close>: \<open>pre\<close> holds the parts
  already consumed (\<^verbatim>\<open>parts.slice(0, index)\<close>) and the third argument the parts from
  \<^verbatim>\<open>index\<close> on. The result is the new value of the object \<^verbatim>\<open>current\<close> pointed to
  when the walk started.

  Where \<^verbatim>\<open>current.children\<close> is absent, \<^verbatim>\<open>?.push\<close> does nothing and \<^verbatim>\<open>?.find\<close>
  yields \<^verbatim>\<open>undefined\<close>: a fresh directory object is made, it is not pushed, and the
  remaining parts are added below that object, which nothing refers to. The object
  \<^verbatim>\<open>current\<close> is left as it was.
\<close>

fun walk :: "string \<Rightarrow> string list \<Rightarrow> string list \<Rightarrow> FileNode \<Rightarrow> FileNode" where
  "walk p pre [] current = current"
| "walk p pre [part] current =
     (case children current of
        None \<Rightarrow> current
      | Some cs \<Rightarrow>
          FileNode (name current) (type current)
            (Some (cs @ [FileNode part File None p])) (path current))"
| "walk p pre (part # rest) current =
     (case children current of
        None \<Rightarrow> current
      | Some cs \<Rightarrow>
          (case find (\<lambda>c. name c = part) cs of
             None \<Rightarrow>
               FileNode (name current) (type current)
                 (Some (cs @ [walk p (pre @ [part]) rest
                    (FileNode part Directory (Some []) (join (pre @ [part])))]))
                 (path current)
           | Some child \<Rightarrow>
               FileNode (name current) (type current)
                 (Some (replace_first (\<lambda>c. name c = part)
                    (walk p (pre @ [part]) rest child) cs))
                 (path current)))"

definition root :: FileNode where
  "root = FileNode ''Root'' Directory (Some []) ''''"

text \<open>The body of \<^verbatim>\<open>files.forEach((file, path) => ...)\<close> for one entry.\<close>

definition add_entry :: "string \<times> 'f \<Rightarrow> FileNode \<Rightarrow> FileNode" where
  "add_entry e r = walk (fst e) [] (split (fst e)) r"

text \<open>The synthetic root after the outer loop.\<close>

definition build_root :: "(string \<times> 'f) list \<Rightarrow> FileNode" where
  "build_root fs = fold add_entry fs root"

text \<open>\<^verbatim>\<open>root.children?.[0] || null\<close>.\<close>

definition first_child :: "FileNode \<Rightarrow> FileNode option" where
  "first_child r = (case children r of None \<Rightarrow> None | Some [] \<Rightarrow> None | Some (c # cs) \<Rightarrow> Some c)"

definition build_tree :: "(string \<times> 'f) list \<Rightarrow> FileNode option" where
  "build_tree fs = first_child (build_root fs)"

text \<open>\<^verbatim>\<open>updateFileTree\<close>: the loading flag is raised, the tree is rebuilt from a fresh
  root and stored, and the flag is lowered again.\<close>

definition updateFileTree :: "(string \<times> 'f) list \<Rightarrow> 'f page_state \<Rightarrow> 'f page_state" where
  "updateFileTree fs s =
     (let s1 = s\<lparr>isLoading := True\<rparr>;
          s2 = s1\<lparr>fileTree := build_tree fs\<rparr>
      in s2\<lparr>isLoading := False\<rparr>)"

text \<open>\<^verbatim>\<open>handleFileSelect\<close>: \<^verbatim>\<open>files.get(path)\<close>, and the state is written only when
  the lookup found a file.\<close>

definition handleFileSelect :: "string \<Rightarrow> 'f page_state \<Rightarrow> 'f page_state" where
  "handleFileSelect p s =
     (case map_of (files s) p of
        None \<Rightarrow> s
      | Some file \<Rightarrow> s\<lparr>selectedFile := Some file\<rparr>)"

section \<open>The page as a state machine\<close>

text \<open>
  The events the component reacts to. The hook replaces the mapping
  (\<open>HookFiles\<close>); its three callbacks and the effect on \<^verbatim>\<open>[files]\<close> each call
  \<^verbatim>\<open>updateFileTree(files)\<close>; a click on a row of the tree calls
  \<^verbatim>\<open>handleFileSelect(node.path)\<close>.
\<close>

datatype 'f event =
    HookFiles "(string \<times> 'f) list"
  | OnFilesAdded
  | OnFilesChanged
  | OnFilesDeleted
  | FilesEffect
  | NodeClick string

fun step :: "'f event \<Rightarrow> 'f page_state \<Rightarrow> 'f page_state" where
  "step (HookFiles fs) s = s\<lparr>files := fs\<rparr>"
| "step OnFilesAdded s = updateFileTree (files s) s"
| "step OnFilesChanged s = updateFileTree (files s) s"
| "step OnFilesDeleted s = updateFileTree (files s) s"
| "step FilesEffect s = updateFileTree (files s) s"
| "step (NodeClick p) s = handleFileSelect p s"

definition run :: "'f event list \<Rightarrow> 'f page_state \<Rightarrow> 'f page_state" where
  "run evs s = fold step evs s"

text \<open>The initial values of the \<^verbatim>\<open>useState\<close> cells, with the mapping still empty.\<close>

definition initial_state :: "'f page_state" where
  "initial_state = \<lparr>files = [], fileTree = None, selectedFile = None, isLoading = False\<rparr>"

section \<open>The byte-size formatter\<close>






text \<open>
  The formatter's contract in its own words: the number of hundredths nearest to
  \<open>n / d\<close>, and that number written with two decimals.
\<close>

definition nearest_hundredth :: "nat \<Rightarrow> nat \<Rightarrow> nat" where
  "nearest_hundredth n d = (200 * n + d) div (2 * d)"


section \<open>Observations on trees\<close>

text \<open>Following a sequence of names downwards the way the builder does: at each
  level the first child with that name.\<close>

fun descend :: "FileNode \<Rightarrow> string list \<Rightarrow> FileNode option" where
  "descend t [] = Some t"
| "descend t (s # ss) =
     (case children t of
        None \<Rightarrow> None
      | Some cs \<Rightarrow> (case find (\<lambda>c. name c = s) cs of None \<Rightarrow> None | Some c \<Rightarrow> descend c ss))"

text \<open>The walk along the names runs into a node without \<^verbatim>\<open>children\<close>.\<close>

fun stops :: "FileNode \<Rightarrow> string list \<Rightarrow> bool" where
  "stops t [] = (children t = None)"
| "stops t (s # ss) =
     (case children t of
        None \<Rightarrow> True
      | Some cs \<Rightarrow> (case find (\<lambda>c. name c = s) cs of None \<Rightarrow> False | Some c \<Rightarrow> stops c ss))"

definition dir_at :: "FileNode \<Rightarrow> string list \<Rightarrow> bool" where
  "dir_at t segs = (case descend t segs of None \<Rightarrow> False | Some n \<Rightarrow> children n \<noteq> None)"

text \<open>The number of nodes of type \<open>File\<close> in a tree.\<close>

fun count_files :: "FileNode \<Rightarrow> nat" where
  "count_files (FileNode n ty ch p) =
     (if ty = File then 1 else 0) +
     (case ch of None \<Rightarrow> 0 | Some cs \<Rightarrow> sum_list (map count_files cs))"

text \<open>No node has two children of the same name.\<close>

fun names_distinct :: "FileNode \<Rightarrow> bool" where
  "names_distinct (FileNode n ty ch p) =
     (case ch of
        None \<Rightarrow> True
      | Some cs \<Rightarrow> distinct (map name cs) \<and> list_all names_distinct cs)"

text \<open>No node has two children of type \<open>Directory\<close> of the same name.\<close>

fun dirs_distinct :: "FileNode \<Rightarrow> bool" where
  "dirs_distinct (FileNode n ty ch p) =
     (case ch of
        None \<Rightarrow> True
      | Some cs \<Rightarrow>
          distinct (map name (filter (\<lambda>c. type c = Directory) cs)) \<and> list_all dirs_distinct cs)"

text \<open>
  The \<^verbatim>\<open>path\<close> fields of a node below the names \<open>pre\<close>, and of all nodes under it: a
  directory carries the joined names down to itself, a file carries a key of the
  mapping whose segments are the names down to the file.
\<close>

fun node_ok :: "string list \<Rightarrow> string list \<Rightarrow> FileNode \<Rightarrow> bool" where
  "node_ok keys pre (FileNode n ty ch p) =
     (case ty of
        File \<Rightarrow> p \<in> set keys \<and> split p = pre @ [n]
      | Directory \<Rightarrow>
          p = join (pre @ [n]) \<and>
          (case ch of None \<Rightarrow> True | Some cs \<Rightarrow> list_all (node_ok keys (pre @ [n])) cs))"

definition children_ok :: "string list \<Rightarrow> string list \<Rightarrow> FileNode \<Rightarrow> bool" where
  "children_ok keys pre t =
     (case children t of None \<Rightarrow> True | Some cs \<Rightarrow> list_all (node_ok keys pre) cs)"

text \<open>\<open>q\<close> is \<open>p\<close>, a separator, and more.\<close>

definition is_proper_slash_prefix :: "string \<Rightarrow> string \<Rightarrow> bool" where
  "is_proper_slash_prefix p q = prefix (p @ ''/'') q"

text \<open>No path of the list is a proper slash-prefix of a path that comes after it.\<close>

fun no_prefix_of_later :: "string list \<Rightarrow> bool" where
  "no_prefix_of_later [] = True"
| "no_prefix_of_later (p # ps) =
     (list_all (\<lambda>q. \<not> is_proper_slash_prefix p q) ps \<and> no_prefix_of_later ps)"

text \<open>No path of the list is a proper slash-prefix of a path that comes before it.\<close>

fun no_prefix_of_earlier :: "string list \<Rightarrow> bool" where
  "no_prefix_of_earlier [] = True"
| "no_prefix_of_earlier (p # ps) =
     (list_all (\<lambda>q. \<not> is_proper_slash_prefix q p) ps \<and> no_prefix_of_earlier ps)"

text \<open>A node has \<^verbatim>\<open>children\<close> exactly when it is a directory, and so for all nodes below.\<close>

fun kinds_ok :: "FileNode \<Rightarrow> bool" where
  "kinds_ok (FileNode n ty ch p) =
     (case ch of
        None \<Rightarrow> ty = File
      | Some cs \<Rightarrow> ty = Directory \<and> list_all kinds_ok cs)"

text \<open>Following all segments but the last by name from \<open>t\<close> ends in a node among whose
  children is the file node that the builder makes for the path \<open>p\<close>.\<close>

definition holds_file :: "FileNode \<Rightarrow> string list \<Rightarrow> string \<Rightarrow> bool" where
  "holds_file t segs p =
     (case descend t (butlast segs) of
        None \<Rightarrow> False
      | Some d \<Rightarrow>
          (case children d of
             None \<Rightarrow> False
           | Some cs \<Rightarrow> FileNode (last segs) File None p \<in> set cs))"

text \<open>No entry that is iterated before the first entry for \<open>p\<close> has a key that is a
  proper slash-prefix of \<open>p\<close>.\<close>

definition unshadowed :: "(string \<times> 'f) list \<Rightarrow> string \<Rightarrow> bool" where
  "unshadowed fs p =
     list_all (\<lambda>e. \<not> is_proper_slash_prefix (fst e) p) (takeWhile (\<lambda>e. fst e \<noteq> p) fs)"

text \<open>The top-level segment of a path.\<close>

definition top :: "string \<Rightarrow> string" where
  "top p = hd (split p)"

text \<open>What one entry of the mapping does to the first child of the root.\<close>

definition advance :: "string \<times> 'f \<Rightarrow> FileNode \<Rightarrow> FileNode" where
  "advance e c =
     (if top (fst e) = name c \<and> tl (split (fst e)) \<noteq> []
      then walk (fst e) [name c] (tl (split (fst e))) c else c)"

text \<open>Every node that the names \<open>segs\<close> lead to comes from a key in \<open>A\<close>: a node
  without children from the key with these segments, a node with children from a key
  that goes on below it.\<close>

definition positions_from :: "string set \<Rightarrow> FileNode \<Rightarrow> bool" where
  "positions_from A t \<longleftrightarrow>
     (\<forall>segs n. segs \<noteq> [] \<longrightarrow> descend t segs = Some n \<longrightarrow>
        (children n = None \<longrightarrow> (\<exists>a\<in>A. split a = segs)) \<and>
        (children n \<noteq> None \<longrightarrow> (\<exists>a\<in>A. strict_prefix segs (split a))))"

section \<open>Facts about the string helpers\<close>

lemma split_nonempty [simp]: "split s \<noteq> []"
  by (induction s) auto

lemma split_append: "split (p @ CHR ''/'' # r) = split p @ split r"
  by (induction p) (auto simp: hd_append)

lemma join_Cons: "ys \<noteq> [] \<Longrightarrow> join (x # ys) = x @ CHR ''/'' # join ys"
  by (cases ys) auto

lemma join_split [simp]: "join (split s) = s"
proof (induction s)
  case Nil show ?case by simp
next
  case (Cons c cs)
  obtain w ws where sp: "split cs = w # ws" by (cases "split cs") auto
  show ?case
  proof (cases "c = CHR ''/''")
    case True
    then show ?thesis using Cons by (simp add: join_Cons)
  next
    case False
    then show ?thesis using Cons sp by (cases ws) auto
  qed
qed

lemma join_append: "xs \<noteq> [] \<Longrightarrow> ys \<noteq> [] \<Longrightarrow> join (xs @ ys) = join xs @ CHR ''/'' # join ys"
  by (induction xs rule: join.induct) (auto simp: join_Cons)

lemma split_inj: "split p = split q \<Longrightarrow> p = q"
  by (metis join_split)

section \<open>Facts about the walk\<close>

lemma walk_Cons:
  "rest \<noteq> [] \<Longrightarrow> walk p pre (part # rest) current =
     (case children current of
        None \<Rightarrow> current
      | Some cs \<Rightarrow>
          (case find (\<lambda>c. name c = part) cs of
             None \<Rightarrow>
               FileNode (name current) (type current)
                 (Some (cs @ [walk p (pre @ [part]) rest
                    (FileNode part Directory (Some []) (join (pre @ [part])))]))
                 (path current)
           | Some child \<Rightarrow>
               FileNode (name current) (type current)
                 (Some (replace_first (\<lambda>c. name c = part)
                    (walk p (pre @ [part]) rest child) cs))
                 (path current)))"
  by (cases rest) auto

lemma walk_name [simp]: "name (walk p pre parts t) = name t"
  by (induction p pre parts t rule: walk.induct) (auto split: option.splits)

lemma walk_type [simp]: "type (walk p pre parts t) = type t"
  by (induction p pre parts t rule: walk.induct) (auto split: option.splits)

lemma walk_path [simp]: "path (walk p pre parts t) = path t"
  by (induction p pre parts t rule: walk.induct) (auto split: option.splits)

lemma walk_children_None [simp]: "(children (walk p pre parts t) = None) = (children t = None)"
  by (induction p pre parts t rule: walk.induct) (auto split: option.splits)

lemma walk_leaf [simp]: "children t = None \<Longrightarrow> walk p pre parts t = t"
  by (induction p pre parts t rule: walk.induct) (auto split: option.splits)

lemma find_snoc: "find P (xs @ [y]) = (case find P xs of None \<Rightarrow> (if P y then Some y else None) | Some x \<Rightarrow> Some x)"
  by (induction xs) auto

lemma find_Some_P: "find P xs = Some c \<Longrightarrow> P c"
  by (induction xs) (auto split: if_splits)

lemma find_Some_mem: "find P xs = Some c \<Longrightarrow> c \<in> set xs"
  by (induction xs) (auto split: if_splits)

lemma replace_first_same: "find P xs = Some c \<Longrightarrow> replace_first P c xs = xs"
  by (induction xs) (auto split: if_splits)

lemma replace_first_None: "find P xs = None \<Longrightarrow> replace_first P y xs = xs"
  by (induction xs) (auto split: if_splits)

lemma find_replace_first_hit:
  "find P xs = Some c \<Longrightarrow> P y \<Longrightarrow> find P (replace_first P y xs) = Some y"
  by (induction xs) (auto split: if_splits)

lemma find_name_replace_first:
  "find (\<lambda>c. name c = a) cs = Some c \<Longrightarrow> name y = a \<Longrightarrow> s \<noteq> a \<Longrightarrow>
   find (\<lambda>c. name c = s) (replace_first (\<lambda>c. name c = a) y cs) = find (\<lambda>c. name c = s) cs"
  by (induction cs) (auto split: if_splits)

lemma descend_leaf: "children t = None \<Longrightarrow> descend t segs = Some n \<Longrightarrow> segs = [] \<and> n = t"
  by (cases segs) auto

lemma descend_empty_dir: "children t = Some [] \<Longrightarrow> descend t segs = Some n \<Longrightarrow> segs = [] \<and> n = t"
  by (cases segs) auto

lemma descend_FileNode_None [simp]:
  "descend (FileNode a ty None q) segs = (if segs = [] then Some (FileNode a ty None q) else None)"
  by (cases segs) auto

lemma descend_FileNode_empty [simp]:
  "descend (FileNode a ty (Some []) q) segs = (if segs = [] then Some (FileNode a ty (Some []) q) else None)"
  by (cases segs) auto

lemma descend_walk:
  "descend (walk p pre parts t) segs = Some n' \<Longrightarrow> segs \<noteq> [] \<Longrightarrow>
     (\<exists>n. descend t segs = Some n \<and> ((children n = None) = (children n' = None)))
     \<or> (children n' = None \<and> segs = parts)
     \<or> (children n' \<noteq> None \<and> strict_prefix segs parts)"
proof (induction p pre parts t arbitrary: segs n' rule: walk.induct)
  case (1 p pre current)
  then show ?case by auto
next
  case (2 p pre part current)
  obtain s ss where segs: "segs = s # ss" using 2(2) by (cases segs) auto
  show ?case
  proof (cases "children current")
    case None
    then show ?thesis using 2 by auto
  next
    case (Some cs)
    show ?thesis
    proof (cases "find (\<lambda>c. name c = s) cs")
      case None
      then show ?thesis using 2(1) Some segs
        by (auto simp: find_snoc split: if_splits)
    next
      case (Some c)
      then show ?thesis using 2(1) \<open>children current = Some cs\<close> segs
        by (auto simp: find_snoc)
    qed
  qed
next
  case (3 p pre part v va current)
  let ?rest = "v # va"
  obtain s ss where segs: "segs = s # ss" using 3(4) by (cases segs) auto
  show ?case
  proof (cases "children current")
    case None
    then show ?thesis using 3(3) by auto
  next
    case (Some cs)
    note cs = this
    show ?thesis
    proof (cases "find (\<lambda>c. name c = part) cs")
      case None
      note fn = this
      let ?d = "FileNode part Directory (Some []) (join (pre @ [part]))"
      let ?w = "walk p (pre @ [part]) ?rest ?d"
      have ch: "children (walk p pre (part # ?rest) current) = Some (cs @ [?w])"
        using cs fn by simp
      show ?thesis
      proof (cases "find (\<lambda>c. name c = s) cs")
        case (Some c)
        then show ?thesis using 3(3) ch cs segs by (auto simp: find_snoc)
      next
        case None
        then have sp: "s = part" and dw: "descend ?w ss = Some n'"
          using 3(3) ch segs by (auto simp: find_snoc split: if_splits)
        show ?thesis
        proof (cases "ss = []")
          case True
          then show ?thesis using dw sp segs by auto
        next
          case False
          from "3.IH"(1)[OF cs fn dw False]
          show ?thesis using sp segs False by auto
        qed
      qed
    next
      case (Some child)
      note fc = this
      let ?w = "walk p (pre @ [part]) ?rest child"
      have nc: "name child = part" using find_Some_P[OF fc] .
      have ch: "children (walk p pre (part # ?rest) current) =
                  Some (replace_first (\<lambda>c. name c = part) ?w cs)"
        using cs fc by simp
      show ?thesis
      proof (cases "s = part")
        case False
        then have "find (\<lambda>c. name c = s) (replace_first (\<lambda>c. name c = part) ?w cs)
                     = find (\<lambda>c. name c = s) cs"
          using find_name_replace_first[OF fc, of ?w s] nc by simp
        then show ?thesis using 3(3) ch cs segs by (auto split: option.splits)
      next
        case True
        have "find (\<lambda>c. name c = part) (replace_first (\<lambda>c. name c = part) ?w cs) = Some ?w"
          using find_replace_first_hit[OF fc, of ?w] nc by simp
        then have dw: "descend ?w ss = Some n'" using 3(3) ch segs True by simp
        show ?thesis
        proof (cases "ss = []")
          case True
          then show ?thesis using dw \<open>s = part\<close> segs cs fc by auto
        next
          case False
          from "3.IH"(2)[OF cs fc dw False]
          show ?thesis using \<open>s = part\<close> segs cs fc by auto
        qed
      qed
    qed
  qed
qed

lemma stops_mono: "stops t segs \<Longrightarrow> stops t (segs @ sfx)"
proof (induction segs arbitrary: t)
  case Nil
  then show ?case by (cases sfx) auto
next
  case (Cons s ss)
  then show ?case by (auto split: option.splits)
qed

lemma walk_stops_id: "stops t segs \<Longrightarrow> sfx \<noteq> [] \<Longrightarrow> walk p pre (segs @ sfx) t = t"
proof (induction segs arbitrary: t pre)
  case Nil
  then show ?case by simp
next
  case (Cons s ss)
  show ?case
  proof (cases "children t")
    case None
    then show ?thesis by simp
  next
    case (Some cs)
    then obtain c where fc: "find (\<lambda>c. name c = s) cs = Some c" and st: "stops c ss"
      using Cons.prems(1) by (auto split: option.splits)
    have "walk p (pre @ [s]) (ss @ sfx) c = c" using Cons.IH[OF st Cons.prems(2)] .
    moreover have "ss @ sfx \<noteq> []" using Cons.prems(2) by simp
    ultimately show ?thesis using Some fc
      by (cases t) (simp add: walk_Cons replace_first_same)
  qed
qed

lemma stops_walk: "stops t segs \<Longrightarrow> stops (walk p pre parts t) segs"
proof (induction p pre parts t arbitrary: segs rule: walk.induct)
  case (1 p pre current)
  then show ?case by simp
next
  case (2 p pre part current)
  then show ?case
    by (cases segs) (auto simp: find_snoc split: option.splits)
next
  case (3 p pre part v va current)
  show ?case
  proof (cases segs)
    case Nil
    then show ?thesis using 3(3) by simp
  next
    case (Cons s ss)
    note segs = this
    show ?thesis
    proof (cases "children current")
      case None
      then show ?thesis using 3(3) by simp
    next
      case (Some cs)
      note cs = this
      then obtain c where fs: "find (\<lambda>c. name c = s) cs = Some c" and st: "stops c ss"
        using 3(3) segs by (auto split: option.splits)
      show ?thesis
      proof (cases "find (\<lambda>c. name c = part) cs")
        case None
        then show ?thesis using cs fs st segs by (simp add: find_snoc)
      next
        case (Some child)
        note fc = this
        have nc: "name child = part" using find_Some_P[OF fc] .
        let ?w = "walk p (pre @ [part]) (v # va) child"
        show ?thesis
        proof (cases "s = part")
          case True
          then have "child = c" using fs fc by simp
          then have "stops ?w ss" using "3.IH"(2)[OF cs fc] st by simp
          moreover have "find (\<lambda>c. name c = part) (replace_first (\<lambda>c. name c = part) ?w cs) = Some ?w"
            using find_replace_first_hit[OF fc, of ?w] nc by simp
          ultimately show ?thesis using cs fc segs True by simp
        next
          case False
          then have "find (\<lambda>c. name c = s) (replace_first (\<lambda>c. name c = part) ?w cs)
                     = find (\<lambda>c. name c = s) cs"
            using find_name_replace_first[OF fc, of ?w s] nc by simp
          then show ?thesis using cs fc segs fs st by simp
        qed
      qed
    qed
  qed
qed

lemma dir_at_Cons:
  "dir_at t (s # ss) =
     (case children t of None \<Rightarrow> False
      | Some cs \<Rightarrow> (case find (\<lambda>c. name c = s) cs of None \<Rightarrow> False | Some c \<Rightarrow> dir_at c ss))"
  by (simp add: dir_at_def split: option.splits)

lemma dir_at_Nil: "dir_at t [] = (children t \<noteq> None)"
  by (simp add: dir_at_def)

lemma walk_makes_stops:
  "\<not> dir_at t parts \<Longrightarrow> parts \<noteq> [] \<Longrightarrow> stops (walk p pre parts t) parts"
proof (induction p pre parts t rule: walk.induct)
  case (1 p pre current)
  then show ?case by simp
next
  case (2 p pre part current)
  show ?case
  proof (cases "children current")
    case None
    then show ?thesis by simp
  next
    case (Some cs)
    then show ?thesis using 2(1)
      by (cases "find (\<lambda>c. name c = part) cs") (simp_all add: find_snoc dir_at_Cons dir_at_Nil)
  qed
next
  case (3 p pre part v va current)
  show ?case
  proof (cases "children current")
    case None
    then show ?thesis by simp
  next
    case (Some cs)
    note cs = this
    show ?thesis
    proof (cases "find (\<lambda>c. name c = part) cs")
      case None
      have "\<not> dir_at (FileNode part Directory (Some []) (join (pre @ [part]))) (v # va)"
        by (simp add: dir_at_Cons)
      then have "stops (walk p (pre @ [part]) (v # va) (FileNode part Directory (Some []) (join (pre @ [part])))) (v # va)"
        using "3.IH"(1)[OF cs None] by simp
      then show ?thesis using cs None by (simp add: find_snoc)
    next
      case (Some child)
      note fc = this
      have nc: "name child = part" using find_Some_P[OF fc] .
      let ?w = "walk p (pre @ [part]) (v # va) child"
      have "\<not> dir_at child (v # va)"
        using 3(3) cs fc by (simp add: dir_at_Cons[of current])
      then have "stops ?w (v # va)" using "3.IH"(2)[OF cs fc] by simp
      moreover have "find (\<lambda>c. name c = part) (replace_first (\<lambda>c. name c = part) ?w cs) = Some ?w"
        using find_replace_first_hit[OF fc, of ?w] nc by simp
      ultimately show ?thesis using cs fc by simp
    qed
  qed
qed

lemma stops_descend:
  "stops t segs \<Longrightarrow> \<exists>pre n. prefix pre segs \<and> descend t pre = Some n \<and> children n = None"
proof (induction segs arbitrary: t)
  case Nil
  then show ?case by auto
next
  case (Cons s ss)
  show ?case
  proof (cases "children t")
    case None
    then have "prefix [] (s # ss) \<and> descend t [] = Some t \<and> children t = None" by simp
    then show ?thesis by blast
  next
    case (Some cs)
    then obtain c where fs: "find (\<lambda>c. name c = s) cs = Some c" and st: "stops c ss"
      using Cons.prems by (auto split: option.splits)
    from Cons.IH[OF st] obtain pre n where
      "prefix pre ss" "descend c pre = Some n" "children n = None" by blast
    then have "prefix (s # pre) (s # ss) \<and> descend t (s # pre) = Some n \<and> children n = None"
      using Some fs by simp
    then show ?thesis by blast
  qed
qed

lemma positions_fromD:
  assumes "positions_from A t" "segs \<noteq> []" "descend t segs = Some n"
  shows "children n = None \<Longrightarrow> \<exists>a\<in>A. split a = segs"
    and "children n \<noteq> None \<Longrightarrow> \<exists>a\<in>A. strict_prefix segs (split a)"
proof -
  have "(children n = None \<longrightarrow> (\<exists>a\<in>A. split a = segs)) \<and>
        (children n \<noteq> None \<longrightarrow> (\<exists>a\<in>A. strict_prefix segs (split a)))"
    using assms unfolding positions_from_def by blast
  then show "children n = None \<Longrightarrow> \<exists>a\<in>A. split a = segs"
    and "children n \<noteq> None \<Longrightarrow> \<exists>a\<in>A. strict_prefix segs (split a)"
    by blast+
qed

lemma positions_from_root: "positions_from A root"
  by (simp add: positions_from_def root_def)

lemma positions_from_add:
  assumes "positions_from A t"
  shows "positions_from (insert (fst e) A) (add_entry e t)"
  unfolding positions_from_def
proof (intro allI impI)
  fix segs n'
  assume ne: "segs \<noteq> []" and "descend (add_entry e t) segs = Some n'"
  then have d: "descend (walk (fst e) [] (split (fst e)) t) segs = Some n'"
    by (simp add: add_entry_def)
  let ?goal = "(children n' = None \<longrightarrow> (\<exists>a\<in>insert (fst e) A. split a = segs)) \<and>
        (children n' \<noteq> None \<longrightarrow> (\<exists>a\<in>insert (fst e) A. strict_prefix segs (split a)))"
  from descend_walk[OF d ne] show ?goal
  proof (elim disjE exE conjE)
    fix n
    assume dn: "descend t segs = Some n" and eq: "(children n = None) = (children n' = None)"
    show ?goal
    proof (cases "children n' = None")
      case True
      then have "children n = None" using eq by simp
      from positions_fromD(1)[OF assms ne dn this] show ?thesis using True by blast
    next
      case False
      then have "children n \<noteq> None" using eq by simp
      from positions_fromD(2)[OF assms ne dn this] show ?thesis using False by blast
    qed
  next
    assume "children n' = None" "segs = split (fst e)"
    then show ?goal by blast
  next
    assume "children n' \<noteq> None" "strict_prefix segs (split (fst e))"
    then show ?goal by blast
  qed
qed

lemma positions_from_fold:
  "positions_from A t \<Longrightarrow> positions_from (A \<union> fst ` set fs) (fold add_entry fs t)"
proof (induction fs arbitrary: A t)
  case Nil
  then show ?case by simp
next
  case (Cons e fs)
  from Cons.IH[OF positions_from_add[OF Cons.prems, of e]]
  show ?case by simp
qed

lemma positions_from_build: "positions_from (fst ` set fs) (build_root fs)"
  using positions_from_fold[OF positions_from_root, of "{}" fs] by (simp add: build_root_def)

section \<open>Facts about the formatter\<close>






lemma nearest_hundredth_bounds:
  assumes "0 < d"
  shows "2 * d * nearest_hundredth n d \<le> 200 * n + d"
    and "200 * n + d < 2 * d * (nearest_hundredth n d + 1)"
proof -
  let ?a = "200 * n + d" and ?b = "2 * d"
  have b: "0 < ?b" using assms by simp
  have "?b * (?a div ?b) \<le> ?a" by (rule times_div_less_eq_dividend)
  then show "2 * d * nearest_hundredth n d \<le> 200 * n + d"
    by (simp add: nearest_hundredth_def)
  have "?a < ?b * (?a div ?b + 1)"
    using b dividend_less_times_div[of ?b ?a] by (simp add: algebra_simps)
  then show "200 * n + d < 2 * d * (nearest_hundredth n d + 1)"
    by (simp add: nearest_hundredth_def)
qed




section \<open>Selection\<close>

text \<open>
  Claim C8. A selection whose path is not a key of the current mapping leaves the
  whole state, and so the selected file, as it was; the handler returns normally.
\<close>

theorem handleFileSelect_miss:
  "p \<notin> fst ` set (files s) \<Longrightarrow> handleFileSelect p s = s"
proof -
  assume "p \<notin> fst ` set (files s)"
  then have "map_of (files s) p = None" by (simp add: map_of_eq_None_iff)
  then show ?thesis by (simp add: handleFileSelect_def)
qed

theorem handleFileSelect_miss_witness:
  "''a/gone.txt'' \<notin> fst ` set [(''a/b.txt'', 1::nat)] \<and>
   handleFileSelect ''a/gone.txt''
     \<lparr>files = [(''a/b.txt'', 1::nat)], fileTree = None, selectedFile = Some 7, isLoading = False\<rparr>
   = \<lparr>files = [(''a/b.txt'', 1)], fileTree = None, selectedFile = Some 7, isLoading = False\<rparr>"
  using handleFileSelect_miss[of "''a/gone.txt''"
    "\<lparr>files = [(''a/b.txt'', 1::nat)], fileTree = None, selectedFile = Some 7, isLoading = False\<rparr>"]
  by simp

lemma updateFileTree_selected [simp]: "selectedFile (updateFileTree fs s) = selectedFile s"
  by (simp add: updateFileTree_def)

lemma updateFileTree_files [simp]: "files (updateFileTree fs s) = files s"
  by (simp add: updateFileTree_def)

lemma handleFileSelect_selected:
  "selectedFile (handleFileSelect p s) =
     (case map_of (files s) p of None \<Rightarrow> selectedFile s | Some f \<Rightarrow> Some f)"
  by (simp add: handleFileSelect_def split: option.splits)

lemma step_keeps_selection: "selectedFile s \<noteq> None \<Longrightarrow> selectedFile (step e s) \<noteq> None"
  by (cases e) (auto simp: handleFileSelect_selected split: option.splits)

lemma run_keeps_selection: "selectedFile s \<noteq> None \<Longrightarrow> selectedFile (run evs s) \<noteq> None"
  unfolding run_def
proof (induction evs arbitrary: s)
  case Nil
  then show ?case by simp
next
  case (Cons e evs)
  from step_keeps_selection[OF Cons.prems] have "selectedFile (step e s) \<noteq> None" .
  from Cons.IH[OF this] show ?case by simp
qed

lemma step_writes_selection:
  "selectedFile (step e s) \<noteq> selectedFile s \<Longrightarrow>
     \<exists>p f. e = NodeClick p \<and> map_of (files s) p = Some f \<and> selectedFile (step e s) = Some f"
  by (cases e) (auto simp: handleFileSelect_selected split: option.splits)

text \<open>
  Claim C10. The selected file is empty initially; once it is set, no sequence of
  events (replaced mapping, rebuilds from the callbacks and the effect, clicks that
  hit or miss) empties it again; and the only event that changes it is a click
  whose path the mapping holds, which stores the file found there.
\<close>

theorem selection_never_cleared:
  "selectedFile (initial_state :: 'f page_state) = None \<and>
   (selectedFile s \<noteq> None \<longrightarrow> selectedFile (run evs s) \<noteq> None) \<and>
   (selectedFile (step e s) \<noteq> selectedFile s \<longrightarrow>
      (\<exists>p f. e = NodeClick p \<and> map_of (files s) p = Some f \<and> selectedFile (step e s) = Some f))"
  using run_keeps_selection[of s evs] step_writes_selection[of e s]
  by (simp add: initial_state_def)

theorem selection_never_cleared_witness:
  "selectedFile (run [HookFiles [(''a/b.txt'', 1::nat)], FilesEffect, NodeClick ''a/b.txt'']
      initial_state) = Some 1 \<and>
   selectedFile (run [HookFiles [], OnFilesDeleted, FilesEffect, NodeClick ''a/b.txt'', NodeClick ''a'']
      (run [HookFiles [(''a/b.txt'', 1::nat)], FilesEffect, NodeClick ''a/b.txt''] initial_state))
     \<noteq> None"
proof -
  let ?s = "run [HookFiles [(''a/b.txt'', 1::nat)], FilesEffect, NodeClick ''a/b.txt''] initial_state"
  have sel: "selectedFile ?s = Some 1"
    by (simp add: run_def initial_state_def handleFileSelect_selected)
  then have "selectedFile ?s \<noteq> None" by simp
  with selection_never_cleared[of ?s
      "[HookFiles [], OnFilesDeleted, FilesEffect, NodeClick ''a/b.txt'', NodeClick ''a'']"]
  show ?thesis using sel by blast
qed

text \<open>
  Claim C7. Rebuilding is a function of the mapping alone: the call writes the tree
  and the loading flag (which it leaves lowered) and nothing else, running it twice
  gives the same state as running it once, the tree does not depend on the state
  the call started from, and the mapping and the selection are untouched.
\<close>

theorem updateFileTree_pure:
  "updateFileTree fs s = s\<lparr>fileTree := build_tree fs, isLoading := False\<rparr> \<and>
   updateFileTree fs (updateFileTree fs s) = updateFileTree fs s \<and>
   fileTree (updateFileTree fs s) = fileTree (updateFileTree fs s') \<and>
   files (updateFileTree fs s) = files s \<and>
   selectedFile (updateFileTree fs s) = selectedFile s"
  by (simp add: updateFileTree_def)

section \<open>Shadowed paths\<close>

lemma is_proper_slash_prefix_iff:
  "is_proper_slash_prefix p q \<longleftrightarrow> strict_prefix (split p) (split q)"
proof
  assume "is_proper_slash_prefix p q"
  then obtain r where q: "q = p @ CHR ''/'' # r"
    by (auto simp: is_proper_slash_prefix_def prefix_def)
  have "split q = split p @ split r" unfolding q by (rule split_append)
  moreover have "split r \<noteq> []" by simp
  ultimately show "strict_prefix (split p) (split q)"
    by (simp add: strict_prefix_def prefix_def)
next
  assume "strict_prefix (split p) (split q)"
  then obtain m where m: "split q = split p @ m" "m \<noteq> []"
    by (auto simp: strict_prefix_def prefix_def)
  have "q = join (split q)" by simp
  also have "\<dots> = join (split p) @ CHR ''/'' # join m"
    unfolding m(1) using m(2) by (simp add: join_append)
  finally have "q = (p @ ''/'') @ join m" by simp
  then show "is_proper_slash_prefix p q"
    unfolding is_proper_slash_prefix_def prefix_def by blast
qed

lemma build_root_append: "build_root (A @ B) = fold add_entry B (build_root A)"
  by (simp add: build_root_def)

lemma build_root_snoc: "build_root (A @ [e]) = add_entry e (build_root A)"
  by (simp add: build_root_def)

lemma stops_fold: "stops t segs \<Longrightarrow> stops (fold add_entry fs t) segs"
  by (induction fs arbitrary: t) (simp_all add: add_entry_def stops_walk)

text \<open>
  Claim C9, as amended. Let \<open>q\<close> be \<open>p\<close>, a separator and more segments, let \<open>p\<close> come
  before \<open>q\<close> in the iteration order, and let no path that comes before \<open>p\<close> go on
  below \<open>p\<close>. Then the walk for \<open>q\<close> changes nothing: the root after \<open>q\<close> is the root
  before it, and the tree built from the mapping is the tree built from the mapping
  without \<open>q\<close>.
\<close>

theorem shadowed_entry_dropped:
  assumes "is_proper_slash_prefix p q"
    and "\<forall>a\<in>fst ` set A. \<not> is_proper_slash_prefix p a"
  shows "add_entry (q, y) (build_root (A @ (p, x) # B)) = build_root (A @ (p, x) # B) \<and>
         build_root (A @ (p, x) # B @ (q, y) # C) = build_root (A @ (p, x) # B @ C) \<and>
         build_tree (A @ (p, x) # B @ (q, y) # C) = build_tree (A @ (p, x) # B @ C)"
proof -
  let ?t0 = "build_root A"
  let ?t1 = "add_entry (p, x) ?t0"
  let ?t2 = "fold add_entry B ?t1"
  obtain m where m: "split q = split p @ m" "m \<noteq> []"
    using assms(1) by (auto simp: is_proper_slash_prefix_iff strict_prefix_def prefix_def)
  have "\<not> dir_at ?t0 (split p)"
  proof
    assume "dir_at ?t0 (split p)"
    then obtain n where n: "descend ?t0 (split p) = Some n" "children n \<noteq> None"
      by (auto simp: dir_at_def split: option.splits)
    from positions_fromD(2)[OF positions_from_build _ n]
    obtain a where "a \<in> fst ` set A" "strict_prefix (split p) (split a)" by auto
    then show False using assms(2) by (auto simp: is_proper_slash_prefix_iff)
  qed
  then have "stops (walk p [] (split p) ?t0) (split p)"
    by (rule walk_makes_stops) simp
  then have "stops ?t1 (split p)"
    by (simp add: add_entry_def[of "(p, x)"])
  then have st: "stops ?t2 (split p)" by (rule stops_fold)
  have t2: "build_root (A @ (p, x) # B) = ?t2" by (simp add: build_root_def)
  have "walk q [] (split p @ m) ?t2 = ?t2"
    using st m(2) by (rule walk_stops_id)
  then have noop: "add_entry (q, y) ?t2 = ?t2"
    by (simp add: add_entry_def[of "(q, y)"] m(1))
  have "build_root (A @ (p, x) # B @ (q, y) # C) = fold add_entry C (add_entry (q, y) ?t2)"
    by (simp add: build_root_def)
  also have "\<dots> = build_root (A @ (p, x) # B @ C)"
    unfolding noop by (simp add: build_root_def)
  finally have eq: "build_root (A @ (p, x) # B @ (q, y) # C) = build_root (A @ (p, x) # B @ C)" .
  show ?thesis using noop eq unfolding t2 build_tree_def by simp
qed

lemmas build_defs = build_tree_def build_root_def add_entry_def root_def first_child_def

theorem shadowed_entry_dropped_witness:
  "is_proper_slash_prefix ''a/b'' ''a/b/c'' \<and>
   \<not> is_proper_slash_prefix ''a/b'' ''a/x'' \<and>
   build_tree [(''a/x'', 1::nat), (''a/b'', 2), (''a/d'', 3), (''a/b/c'', 4), (''a/e'', 5)]
     = build_tree [(''a/x'', 1::nat), (''a/b'', 2), (''a/d'', 3), (''a/e'', 5)]"
proof -
  have h1: "is_proper_slash_prefix ''a/b'' ''a/b/c''"
    by (simp add: is_proper_slash_prefix_def)
  have h2: "\<forall>a\<in>fst ` set [(''a/x'', 1::nat)]. \<not> is_proper_slash_prefix ''a/b'' a"
    by (simp add: is_proper_slash_prefix_def)
  from shadowed_entry_dropped[OF h1 h2, of 4 2 "[(''a/d'', 3)]" "[(''a/e'', 5)]"]
  show ?thesis using h1 h2 by simp
qed

text \<open>
  Without the condition on the paths before \<open>p\<close> the claim fails: \<open>a/b/x\<close> makes a
  directory \<open>b\<close>, the file \<open>b\<close> of \<open>a/b\<close> is pushed behind it, and the walk for
  \<open>a/b/c\<close> finds the directory first and adds the file \<open>c\<close> to it.
\<close>

theorem shadowing_needs_first_counterexample:
  "is_proper_slash_prefix ''a/b'' ''a/b/c'' \<and>
   distinct (map fst [(''a/b/x'', 1::nat), (''a/b'', 2), (''a/b/c'', 3)]) \<and>
   build_tree [(''a/b/x'', 1::nat), (''a/b'', 2), (''a/b/c'', 3)] =
     Some (FileNode ''a'' Directory
       (Some [FileNode ''b'' Directory
                (Some [FileNode ''x'' File None ''a/b/x'', FileNode ''c'' File None ''a/b/c''])
                ''a/b'',
              FileNode ''b'' File None ''a/b''])
       ''a'') \<and>
   build_tree [(''a/b/x'', 1::nat), (''a/b'', 2), (''a/b/c'', 3)]
     \<noteq> build_tree [(''a/b/x'', 1::nat), (''a/b'', 2)]"
  by (simp add: is_proper_slash_prefix_def build_defs)

section \<open>Invariants of the built tree\<close>

lemma list_all_replace_first:
  "list_all Q cs \<Longrightarrow> Q y \<Longrightarrow> list_all Q (replace_first P y cs)"
  by (induction cs) auto

lemma map_replace_first:
  "find P cs = Some c \<Longrightarrow> f y = f c \<Longrightarrow> map f (replace_first P y cs) = map f cs"
  by (induction cs) (auto split: if_splits)

lemma node_ok_alt:
  "node_ok keys pre t =
     (case type t of
        File \<Rightarrow> path t \<in> set keys \<and> split (path t) = pre @ [name t]
      | Directory \<Rightarrow> path t = join (pre @ [name t]) \<and> children_ok keys (pre @ [name t]) t)"
  by (cases t) (simp add: children_ok_def split: node_type.splits)

lemma children_ok_walk:
  "children_ok keys pre t \<Longrightarrow> split p = pre @ parts \<Longrightarrow> p \<in> set keys \<Longrightarrow>
   children_ok keys pre (walk p pre parts t)"
proof (induction p pre parts t rule: walk.induct)
  case (1 p pre current)
  then show ?case by simp
next
  case (2 p pre part current)
  then show ?case by (auto simp: children_ok_def split: option.splits)
next
  case (3 p pre part v va current)
  show ?case
  proof (cases "children current")
    case None
    then show ?thesis using 3(3) by simp
  next
    case (Some cs)
    note cs = this
    have all: "list_all (node_ok keys pre) cs" using 3(3) cs by (simp add: children_ok_def)
    have sp: "split p = (pre @ [part]) @ v # va" using 3(4) by simp
    show ?thesis
    proof (cases "find (\<lambda>c. name c = part) cs")
      case None
      let ?d = "FileNode part Directory (Some []) (join (pre @ [part]))"
      have "children_ok keys (pre @ [part]) ?d" by (simp add: children_ok_def)
      from "3.IH"(1)[OF cs None this sp 3(5)]
      have "node_ok keys pre (walk p (pre @ [part]) (v # va) ?d)"
        by (simp add: node_ok_alt)
      then show ?thesis using cs None all by (simp add: children_ok_def)
    next
      case (Some child)
      note fc = this
      have nc: "name child = part" using find_Some_P[OF fc] .
      have ok: "node_ok keys pre child"
        using all find_Some_mem[OF fc] by (simp add: list_all_iff)
      have "node_ok keys pre (walk p (pre @ [part]) (v # va) child)"
      proof (cases "type child")
        case File
        then show ?thesis using ok by (simp add: node_ok_alt)
      next
        case Directory
        then have "children_ok keys (pre @ [part]) child" using ok nc by (simp add: node_ok_alt)
        from "3.IH"(2)[OF cs fc this sp 3(5)] show ?thesis
          using ok Directory nc by (simp add: node_ok_alt)
      qed
      then show ?thesis using cs fc all
        by (simp add: children_ok_def list_all_replace_first)
    qed
  qed
qed

lemma children_ok_fold:
  "children_ok keys [] t \<Longrightarrow> fst ` set fs \<subseteq> set keys \<Longrightarrow>
   children_ok keys [] (fold add_entry fs t)"
proof (induction fs arbitrary: t)
  case Nil
  then show ?case by simp
next
  case (Cons e fs)
  have "children_ok keys [] (walk (fst e) [] (split (fst e)) t)"
    using Cons.prems by (intro children_ok_walk) simp_all
  then have "children_ok keys [] (add_entry e t)" by (simp add: add_entry_def)
  from Cons.IH[OF this] show ?case using Cons.prems(2) by simp
qed

lemma children_ok_build: "children_ok (map fst fs) [] (build_root fs)"
  unfolding build_root_def
  by (rule children_ok_fold) (simp_all add: children_ok_def root_def)

lemma first_child_mem:
  "first_child r = Some c \<Longrightarrow> \<exists>cs. children r = Some cs \<and> c \<in> set cs"
  by (auto simp: first_child_def split: option.splits list.splits)

text \<open>
  Claim C6. In the root that the builder leaves, and so in the tree it returns, every
  directory node carries as \<^verbatim>\<open>path\<close> the names from the top down to itself joined
  by the separator, and every file node carries a key of the mapping whose segments
  are the names from the top down to the file.
\<close>

theorem built_paths_ok:
  "children_ok (map fst fs) [] (build_root fs) \<and>
   (case build_tree fs of None \<Rightarrow> True | Some t \<Rightarrow> node_ok (map fst fs) [] t)"
proof -
  have ok: "children_ok (map fst fs) [] (build_root fs)" by (rule children_ok_build)
  have "node_ok (map fst fs) [] t" if "build_tree fs = Some t" for t
  proof -
    from first_child_mem[OF that[unfolded build_tree_def]]
    obtain cs where "children (build_root fs) = Some cs" "t \<in> set cs" by blast
    then show ?thesis using ok by (simp add: children_ok_def list_all_iff)
  qed
  then show ?thesis using ok by (simp split: option.splits)
qed

theorem built_paths_ok_witness:
  "build_tree [(''a/b/x.txt'', 1::nat), (''a/c'', 2)] =
     Some (FileNode ''a'' Directory
       (Some [FileNode ''b'' Directory (Some [FileNode ''x.txt'' File None ''a/b/x.txt'']) ''a/b'',
              FileNode ''c'' File None ''a/c''])
       ''a'') \<and>
   node_ok [''a/b/x.txt'', ''a/c''] []
     (FileNode ''a'' Directory
       (Some [FileNode ''b'' Directory (Some [FileNode ''x.txt'' File None ''a/b/x.txt'']) ''a/b'',
              FileNode ''c'' File None ''a/c''])
       ''a'')"
proof -
  have b: "build_tree [(''a/b/x.txt'', 1::nat), (''a/c'', 2)] =
     Some (FileNode ''a'' Directory
       (Some [FileNode ''b'' Directory (Some [FileNode ''x.txt'' File None ''a/b/x.txt'']) ''a/b'',
              FileNode ''c'' File None ''a/c''])
       ''a'')"
    by (simp add: build_defs)
  from built_paths_ok[of "[(''a/b/x.txt'', 1::nat), (''a/c'', 2)]"]
  show ?thesis unfolding b by simp
qed

lemma dirs_distinct_alt:
  "dirs_distinct t =
     (case children t of
        None \<Rightarrow> True
      | Some cs \<Rightarrow>
          distinct (map name (filter (\<lambda>c. type c = Directory) cs)) \<and> list_all dirs_distinct cs)"
  by (cases t) simp

lemma filter_dirs_replace_first:
  assumes "find P cs = Some c" "name y = name c" "type y = type c"
  shows "map name (filter (\<lambda>c. type c = Directory) (replace_first P y cs))
         = map name (filter (\<lambda>c. type c = Directory) cs)"
  using assms by (induction cs) (auto split: if_splits)

lemma dirs_distinct_walk: "dirs_distinct t \<Longrightarrow> dirs_distinct (walk p pre parts t)"
proof (induction p pre parts t rule: walk.induct)
  case (1 p pre current)
  then show ?case by simp
next
  case (2 p pre part current)
  then show ?case by (auto simp: dirs_distinct_alt[of current] split: option.splits)
next
  case (3 p pre part v va current)
  show ?case
  proof (cases "children current")
    case None
    then show ?thesis using 3(3) by simp
  next
    case (Some cs)
    note cs = this
    have d: "distinct (map name (filter (\<lambda>c. type c = Directory) cs))"
      and all: "list_all dirs_distinct cs"
      using 3(3) cs by (simp_all add: dirs_distinct_alt[of current])
    show ?thesis
    proof (cases "find (\<lambda>c. name c = part) cs")
      case None
      let ?d = "FileNode part Directory (Some []) (join (pre @ [part]))"
      have "dirs_distinct ?d" by simp
      from "3.IH"(1)[OF cs None this]
      have w: "dirs_distinct (walk p (pre @ [part]) (v # va) ?d)" .
      have "part \<notin> name ` set cs" using None by (auto simp: find_None_iff)
      then have "part \<notin> set (map name (filter (\<lambda>c. type c = Directory) cs))" by auto
      then show ?thesis using cs None d all w by simp
    next
      case (Some child)
      note fc = this
      have "dirs_distinct child" using all find_Some_mem[OF fc] by (simp add: list_all_iff)
      from "3.IH"(2)[OF cs fc this]
      have w: "dirs_distinct (walk p (pre @ [part]) (v # va) child)" .
      have "map name (filter (\<lambda>c. type c = Directory)
              (replace_first (\<lambda>c. name c = part) (walk p (pre @ [part]) (v # va) child) cs))
            = map name (filter (\<lambda>c. type c = Directory) cs)"
        by (rule filter_dirs_replace_first[OF fc]) simp_all
      then show ?thesis using cs fc d all w by (simp add: list_all_replace_first)
    qed
  qed
qed

lemma dirs_distinct_build: "dirs_distinct (build_root fs)"
proof -
  have "dirs_distinct t \<Longrightarrow> dirs_distinct (fold add_entry fs t)" for t
    by (induction fs arbitrary: t) (simp_all add: add_entry_def dirs_distinct_walk)
  then show ?thesis by (simp add: build_root_def root_def)
qed

lemma no_prefix_of_later_snoc:
  "no_prefix_of_later (ps @ [q]) \<longleftrightarrow>
     no_prefix_of_later ps \<and> (\<forall>p\<in>set ps. \<not> is_proper_slash_prefix p q)"
  by (induction ps) (auto simp: list_all_iff)

lemma no_prefix_of_earlier_snoc:
  "no_prefix_of_earlier (ps @ [q]) \<longleftrightarrow>
     no_prefix_of_earlier ps \<and> (\<forall>p\<in>set ps. \<not> is_proper_slash_prefix q p)"
  by (induction ps) (auto simp: list_all_iff)

lemma fold_walk_fields [simp]:
  "name (fold add_entry fs t) = name t"
  "type (fold add_entry fs t) = type t"
  "path (fold add_entry fs t) = path t"
  "(children (fold add_entry fs t) = None) = (children t = None)"
  by (induction fs arbitrary: t) (simp_all add: add_entry_def)

lemma build_root_fields [simp]:
  "name (build_root fs) = ''Root''" "type (build_root fs) = Directory"
  "path (build_root fs) = ''''" "children (build_root fs) \<noteq> None"
  by (simp_all add: build_root_def root_def)

lemma names_distinct_alt:
  "names_distinct t =
     (case children t of
        None \<Rightarrow> True
      | Some cs \<Rightarrow> distinct (map name cs) \<and> list_all names_distinct cs)"
  by (cases t) simp

lemma names_distinct_walk:
  "names_distinct t \<Longrightarrow> descend t parts = None \<Longrightarrow> names_distinct (walk p pre parts t)"
proof (induction p pre parts t rule: walk.induct)
  case (1 p pre current)
  then show ?case by simp
next
  case (2 p pre part current)
  show ?case
  proof (cases "children current")
    case None
    then show ?thesis using 2 by simp
  next
    case (Some cs)
    then have "find (\<lambda>c. name c = part) cs = None"
      using 2(2) by (simp split: option.splits)
    then have "part \<notin> name ` set cs" by (auto simp: find_None_iff)
    then show ?thesis using 2(1) Some by (simp add: names_distinct_alt[of current])
  qed
next
  case (3 p pre part v va current)
  show ?case
  proof (cases "children current")
    case None
    then show ?thesis using 3(3) by simp
  next
    case (Some cs)
    note cs = this
    have d: "distinct (map name cs)" and all: "list_all names_distinct cs"
      using 3(3) cs by (simp_all add: names_distinct_alt[of current])
    show ?thesis
    proof (cases "find (\<lambda>c. name c = part) cs")
      case None
      let ?d = "FileNode part Directory (Some []) (join (pre @ [part]))"
      have "names_distinct ?d" "descend ?d (v # va) = None" by simp_all
      from "3.IH"(1)[OF cs None this]
      have w: "names_distinct (walk p (pre @ [part]) (v # va) ?d)" .
      have "part \<notin> name ` set cs" using None by (auto simp: find_None_iff)
      then show ?thesis using cs None d all w by simp
    next
      case (Some child)
      note fc = this
      have "names_distinct child" using all find_Some_mem[OF fc] by (simp add: list_all_iff)
      moreover have "descend child (v # va) = None" using 3(4) cs fc by simp
      ultimately have w: "names_distinct (walk p (pre @ [part]) (v # va) child)"
        by (rule "3.IH"(2)[OF cs fc])
      have "map name (replace_first (\<lambda>c. name c = part) (walk p (pre @ [part]) (v # va) child) cs)
            = map name cs"
        by (rule map_replace_first[OF fc]) simp
      then show ?thesis using cs fc d all w by (simp add: list_all_replace_first)
    qed
  qed
qed

lemma fresh_position:
  assumes "distinct (map fst (fs @ [e]))" "no_prefix_of_earlier (map fst (fs @ [e]))"
  shows "descend (build_root fs) (split (fst e)) = None"
proof (rule ccontr)
  assume "descend (build_root fs) (split (fst e)) \<noteq> None"
  then obtain n where n: "descend (build_root fs) (split (fst e)) = Some n" by auto
  have ne: "split (fst e) \<noteq> []" by simp
  show False
  proof (cases "children n = None")
    case True
    from positions_fromD(1)[OF positions_from_build ne n True]
    obtain a where a: "a \<in> fst ` set fs" "split a = split (fst e)" by blast
    have "a = fst e" using a(2) by (rule split_inj)
    then have "fst e \<in> fst ` set fs" using a(1) by simp
    then show False using assms(1) by simp
  next
    case False
    from positions_fromD(2)[OF positions_from_build ne n False]
    obtain a where "a \<in> fst ` set fs" "strict_prefix (split (fst e)) (split a)" by blast
    then have "a \<in> set (map fst fs)" "is_proper_slash_prefix (fst e) a"
      by (auto simp: is_proper_slash_prefix_iff)
    then show False using assms(2) by (auto simp: no_prefix_of_earlier_snoc)
  qed
qed

lemma names_distinct_build:
  "distinct (map fst fs) \<Longrightarrow> no_prefix_of_earlier (map fst fs) \<Longrightarrow>
   names_distinct (build_root fs)"
proof (induction fs rule: rev_induct)
  case Nil
  show ?case by (simp add: build_root_def root_def)
next
  case (snoc e fs)
  have "names_distinct (build_root fs)"
    using snoc.IH snoc.prems by (simp add: no_prefix_of_earlier_snoc)
  then have "names_distinct (walk (fst e) [] (split (fst e)) (build_root fs))"
    using fresh_position[OF snoc.prems] by (rule names_distinct_walk)
  then show ?case by (simp add: build_root_snoc add_entry_def)
qed

text \<open>
  Claim C4, as amended. For every mapping with unique paths none of which is a proper
  slash-prefix of a path iterated before it, no node of the root that the builder
  leaves, and so of the tree it returns, has two children of the same name.
\<close>

theorem names_unique_when_no_later_prefix:
  assumes "distinct (map fst fs)" and "no_prefix_of_earlier (map fst fs)"
  shows "names_distinct (build_root fs) \<and>
         (case build_tree fs of None \<Rightarrow> True | Some t \<Rightarrow> names_distinct t)"
proof -
  have r: "names_distinct (build_root fs)" using assms by (rule names_distinct_build)
  have "names_distinct t" if "build_tree fs = Some t" for t
  proof -
    from first_child_mem[OF that[unfolded build_tree_def]]
    obtain cs where "children (build_root fs) = Some cs" "t \<in> set cs" by blast
    then show ?thesis using r by (simp add: names_distinct_alt[of "build_root fs"] list_all_iff)
  qed
  then show ?thesis using r by (simp split: option.splits)
qed

theorem names_unique_when_no_later_prefix_witness:
  "distinct (map fst [(''a/b'', 1::nat), (''a/b/c'', 2), (''a/d'', 3)]) \<and>
   no_prefix_of_earlier (map fst [(''a/b'', 1::nat), (''a/b/c'', 2), (''a/d'', 3)]) \<and>
   is_proper_slash_prefix ''a/b'' ''a/b/c'' \<and>
   build_tree [(''a/b'', 1::nat), (''a/b/c'', 2), (''a/d'', 3)] =
     Some (FileNode ''a'' Directory
       (Some [FileNode ''b'' File None ''a/b'', FileNode ''d'' File None ''a/d''])
       ''a'') \<and>
   names_distinct (FileNode ''a'' Directory
       (Some [FileNode ''b'' File None ''a/b'', FileNode ''d'' File None ''a/d''])
       ''a'')"
proof -
  let ?fs = "[(''a/b'', 1::nat), (''a/b/c'', 2), (''a/d'', 3)]"
  have h1: "distinct (map fst ?fs)" by simp
  have h2: "no_prefix_of_earlier (map fst ?fs)" by (simp add: is_proper_slash_prefix_def)
  have h3: "is_proper_slash_prefix ''a/b'' ''a/b/c''" by (simp add: is_proper_slash_prefix_def)
  have b: "build_tree ?fs =
     Some (FileNode ''a'' Directory
       (Some [FileNode ''b'' File None ''a/b'', FileNode ''d'' File None ''a/d''])
       ''a'')"
    by (simp add: build_defs)
  from names_unique_when_no_later_prefix[OF h1 h2] have
    "case build_tree ?fs of None \<Rightarrow> True | Some t \<Rightarrow> names_distinct t" by blast
  then show ?thesis using h1 h2 h3 unfolding b by simp
qed

text \<open>
  With unique paths alone the claim fails: the last segment of a path is pushed as
  a file without a look at the children that are there, so \<open>a/b\<close> after \<open>a/b/c\<close>
  puts a file \<open>b\<close> beside the directory \<open>b\<close>. The other order, \<open>a/b\<close> before
  \<open>a/b/c\<close>, does no harm to the names (it is the mapping of the witness).
\<close>

theorem file_beside_directory_counterexample:
  "distinct (map fst [(''a/b/c'', 1::nat), (''a/b'', 2)]) \<and>
   build_tree [(''a/b/c'', 1::nat), (''a/b'', 2)] =
     Some (FileNode ''a'' Directory
       (Some [FileNode ''b'' Directory (Some [FileNode ''c'' File None ''a/b/c'']) ''a/b'',
              FileNode ''b'' File None ''a/b''])
       ''a'') \<and>
   \<not> names_distinct (FileNode ''a'' Directory
       (Some [FileNode ''b'' Directory (Some [FileNode ''c'' File None ''a/b/c'']) ''a/b'',
              FileNode ''b'' File None ''a/b''])
       ''a'')"
  by (simp add: build_defs)

section \<open>Counting the files\<close>

lemma count_files_alt:
  "count_files t =
     (if type t = File then 1 else 0) +
     (case children t of None \<Rightarrow> 0 | Some cs \<Rightarrow> sum_list (map count_files cs))"
  by (cases t) simp

lemma sum_list_replace_first:
  fixes f :: "'a \<Rightarrow> nat"
  shows "find P cs = Some c \<Longrightarrow>
         sum_list (map f (replace_first P y cs)) + f c = sum_list (map f cs) + f y"
  by (induction cs) (auto split: if_splits)

lemma stops_empty_dir [simp]: "\<not> stops (FileNode a ty (Some []) q) segs"
  by (cases segs) auto

lemma count_files_walk:
  "parts \<noteq> [] \<Longrightarrow> \<not> stops t (butlast parts) \<Longrightarrow>
   count_files (walk p pre parts t) = Suc (count_files t)"
proof (induction p pre parts t rule: walk.induct)
  case (1 p pre current)
  then show ?case by simp
next
  case (2 p pre part current)
  then obtain cs where "children current = Some cs" by auto
  then show ?case by (simp add: count_files_alt[of current])
next
  case (3 p pre part v va current)
  have ns: "\<not> stops current (part # butlast (v # va))" using 3(4) by simp
  then obtain cs where cs: "children current = Some cs" by (auto split: option.splits)
  show ?case
  proof (cases "find (\<lambda>c. name c = part) cs")
    case None
    let ?d = "FileNode part Directory (Some []) (join (pre @ [part]))"
    have "count_files (walk p (pre @ [part]) (v # va) ?d) = Suc (count_files ?d)"
      by (rule "3.IH"(1)[OF cs None]) simp_all
    then show ?thesis using cs None by (simp add: count_files_alt[of current])
  next
    case (Some child)
    note fc = this
    have "\<not> stops child (butlast (v # va))" using ns cs fc by simp
    then have w: "count_files (walk p (pre @ [part]) (v # va) child) = Suc (count_files child)"
      by (intro "3.IH"(2)[OF cs fc]) simp_all
    from sum_list_replace_first[OF fc, of count_files "walk p (pre @ [part]) (v # va) child"]
    have "sum_list (map count_files (replace_first (\<lambda>c. name c = part)
            (walk p (pre @ [part]) (v # va) child) cs)) = Suc (sum_list (map count_files cs))"
      unfolding w by simp
    then show ?thesis using cs fc by (simp add: count_files_alt[of current])
  qed
qed

lemma prefix_butlast_strict: "prefix xs (butlast ys) \<Longrightarrow> ys \<noteq> [] \<Longrightarrow> strict_prefix xs ys"
proof -
  assume a: "prefix xs (butlast ys)" "ys \<noteq> []"
  then obtain zs where "butlast ys = xs @ zs" by (auto simp: prefix_def)
  then have "ys = xs @ (zs @ [last ys])" using a(2)
    by (metis append_butlast_last_id append.assoc)
  then show ?thesis by (metis append_is_Nil_conv not_Cons_self2 strict_prefixI' neq_Nil_conv)
qed

lemma not_stops_fresh:
  assumes "no_prefix_of_later (map fst (fs @ [e]))"
  shows "\<not> stops (build_root fs) (butlast (split (fst e)))"
proof
  assume "stops (build_root fs) (butlast (split (fst e)))"
  from stops_descend[OF this] obtain pre n where
    pre: "prefix pre (butlast (split (fst e)))" and
    n: "descend (build_root fs) pre = Some n" "children n = None" by blast
  have "pre \<noteq> []"
  proof
    assume "pre = []"
    then have "n = build_root fs" using n(1) by simp
    then show False using n(2) by simp
  qed
  from positions_fromD(1)[OF positions_from_build this n]
  obtain a where a: "a \<in> fst ` set fs" "split a = pre" by blast
  have "strict_prefix (split a) (split (fst e))"
    unfolding a(2) using pre by (rule prefix_butlast_strict) simp
  then have "is_proper_slash_prefix a (fst e)" by (simp add: is_proper_slash_prefix_iff)
  moreover have "a \<in> set (map fst fs)" using a(1) by simp
  ultimately show False using assms by (auto simp: no_prefix_of_later_snoc)
qed

lemma count_files_build:
  "no_prefix_of_later (map fst fs) \<Longrightarrow> count_files (build_root fs) = length fs"
proof (induction fs rule: rev_induct)
  case Nil
  show ?case by (simp add: build_root_def root_def)
next
  case (snoc e fs)
  have "count_files (walk (fst e) [] (split (fst e)) (build_root fs))
          = Suc (count_files (build_root fs))"
    using not_stops_fresh[OF snoc.prems] by (intro count_files_walk) simp_all
  then show ?case
    using snoc.IH snoc.prems
    by (simp add: build_root_snoc add_entry_def no_prefix_of_later_snoc)
qed

section \<open>The returned tree\<close>

lemma advance_name [simp]: "name (advance e c) = name c"
  by (simp add: advance_def)

lemma split_hd_tl: "split p = top p # tl (split p)"
  by (simp add: top_def)

lemma add_entry_first:
  assumes "children t = Some (c0 # cs)"
  shows "\<exists>cs'. children (add_entry e t) = Some (advance e c0 # cs')"
proof (cases "tl (split (fst e)) = []")
  case True
  then have "split (fst e) = [top (fst e)]" using split_hd_tl[of "fst e"] by simp
  then show ?thesis using assms True by (simp add: add_entry_def advance_def)
next
  case False
  have sp: "split (fst e) = top (fst e) # tl (split (fst e))" by (rule split_hd_tl)
  have w: "walk (fst e) [] (split (fst e)) t =
        (case find (\<lambda>c. name c = top (fst e)) (c0 # cs) of
           None \<Rightarrow>
             FileNode (name t) (type t)
               (Some ((c0 # cs) @ [walk (fst e) ([] @ [top (fst e)]) (tl (split (fst e)))
                  (FileNode (top (fst e)) Directory (Some []) (join ([] @ [top (fst e)])))]))
               (path t)
         | Some child \<Rightarrow>
             FileNode (name t) (type t)
               (Some (replace_first (\<lambda>c. name c = top (fst e))
                  (walk (fst e) ([] @ [top (fst e)]) (tl (split (fst e))) child) (c0 # cs)))
               (path t))"
    by (subst sp) (simp add: walk_Cons[OF False] assms)
  show ?thesis
  proof (cases "name c0 = top (fst e)")
    case True
    then show ?thesis using False unfolding add_entry_def w by (simp add: advance_def)
  next
    case ne: False
    then have adv: "advance e c0 = c0" by (auto simp: advance_def)
    show ?thesis unfolding add_entry_def w adv using ne
      by (cases "find (\<lambda>c. name c = top (fst e)) cs") simp_all
  qed
qed

lemma fold_add_entry_first:
  "children t = Some (c0 # cs) \<Longrightarrow>
   \<exists>cs'. children (fold add_entry fs t) = Some (fold advance fs c0 # cs')"
proof (induction fs arbitrary: t c0 cs)
  case Nil
  then show ?case by simp
next
  case (Cons e fs)
  from add_entry_first[OF Cons.prems, of e]
  obtain cs' where "children (add_entry e t) = Some (advance e c0 # cs')" by blast
  from Cons.IH[OF this] show ?case by simp
qed

lemma fold_advance_filter:
  "fold advance (filter (\<lambda>e. top (fst e) = name c) fs) c = fold advance fs c"
proof (induction fs arbitrary: c)
  case Nil
  show ?case by simp
next
  case (Cons e fs)
  show ?case
  proof (cases "top (fst e) = name c")
    case True
    then show ?thesis using Cons.IH[of "advance e c"] by simp
  next
    case False
    then have "advance e c = c" by (simp add: advance_def)
    then show ?thesis using False Cons.IH[of c] by simp
  qed
qed

lemma add_entry_root:
  "\<exists>c0. children (add_entry e root) = Some [c0] \<and> name c0 = top (fst e)"
proof (cases "tl (split (fst e)) = []")
  case True
  then have "split (fst e) = [top (fst e)]" using split_hd_tl[of "fst e"] by simp
  then show ?thesis by (simp add: add_entry_def root_def)
next
  case False
  have "walk (fst e) [] (top (fst e) # tl (split (fst e))) root =
     FileNode ''Root'' Directory
       (Some [walk (fst e) [top (fst e)] (tl (split (fst e)))
                (FileNode (top (fst e)) Directory (Some []) (join [top (fst e)]))]) ''''"
    by (simp add: walk_Cons[OF False] root_def)
  then show ?thesis unfolding add_entry_def using split_hd_tl[of "fst e"] by simp
qed

lemma build_tree_Cons:
  "\<exists>c0. children (add_entry e root) = Some [c0] \<and> name c0 = top (fst e) \<and>
        build_tree (e # fs) = Some (fold advance fs c0)"
proof -
  from add_entry_root[of e] obtain c0 where
    c0: "children (add_entry e root) = Some [c0]" "name c0 = top (fst e)" by blast
  from fold_add_entry_first[OF c0(1), of fs]
  obtain cs' where "children (fold add_entry fs (add_entry e root)) = Some (fold advance fs c0 # cs')"
    by blast
  then have "build_tree (e # fs) = Some (fold advance fs c0)"
    by (simp add: build_tree_def build_root_def first_child_def)
  then show ?thesis using c0 by blast
qed

lemma fold_advance_name [simp]: "name (fold advance fs c) = name c"
  by (induction fs arbitrary: c) simp_all

lemma build_tree_filter_top:
  "build_tree (e # fs) = build_tree (e # filter (\<lambda>x. top (fst x) = top (fst e)) fs)"
proof -
  let ?gs = "filter (\<lambda>x. top (fst x) = top (fst e)) fs"
  from build_tree_Cons[of e fs] obtain c0 where
    c0: "children (add_entry e root) = Some [c0]" "name c0 = top (fst e)"
        "build_tree (e # fs) = Some (fold advance fs c0)" by blast
  from build_tree_Cons[of e ?gs] obtain c1 where
    c1: "children (add_entry e root) = Some [c1]"
        "build_tree (e # ?gs) = Some (fold advance ?gs c1)" by blast
  have "c1 = c0" using c0(1) c1(1) by simp
  moreover have "fold advance ?gs c0 = fold advance fs c0"
    using fold_advance_filter[of c0 fs] c0(2) by simp
  ultimately show ?thesis using c0(3) c1(2) by simp
qed

text \<open>
  Claim C3. The builder returns the first child of the synthetic root: nothing for
  the empty mapping; for a non-empty mapping a node named after the top-level
  segment of the first path; and in every case the tree built from those entries
  alone whose top-level segment is that of the first path, so that entries under
  any other top-level segment leave no trace in the result.
\<close>

theorem first_top_level_entry_only:
  "build_tree ([] :: (string \<times> 'f) list) = None \<and>
   (fs \<noteq> [] \<longrightarrow> (\<exists>c. build_tree fs = Some c \<and> name c = top (fst (hd fs)))) \<and>
   build_tree fs = build_tree (filter (\<lambda>e. top (fst e) = top (fst (hd fs))) fs) \<and>
   build_tree (fs :: (string \<times> 'f) list) = first_child (build_root fs)"
proof -
  have e: "build_tree ([] :: (string \<times> 'f) list) = None"
    by (simp add: build_defs)
  have n: "fs \<noteq> [] \<longrightarrow> (\<exists>c. build_tree fs = Some c \<and> name c = top (fst (hd fs)))"
  proof
    assume "fs \<noteq> []"
    then obtain x xs where fs: "fs = x # xs" by (cases fs) auto
    from build_tree_Cons[of x xs] show "\<exists>c. build_tree fs = Some c \<and> name c = top (fst (hd fs))"
      unfolding fs by auto
  qed
  have f: "build_tree fs = build_tree (filter (\<lambda>e. top (fst e) = top (fst (hd fs))) fs)"
  proof (cases fs)
    case Nil
    then show ?thesis by simp
  next
    case (Cons x xs)
    then show ?thesis using build_tree_filter_top[of x xs] by simp
  qed
  show ?thesis using e n f by (simp add: build_tree_def)
qed

theorem first_top_level_entry_only_witness:
  "[(''a/x'', 1::nat), (''b/y'', 2), (''a/z'', 3), (''c'', 4)] \<noteq> [] \<and>
   build_tree [(''a/x'', 1::nat), (''b/y'', 2), (''a/z'', 3), (''c'', 4)] =
     build_tree [(''a/x'', 1::nat), (''a/z'', 3)] \<and>
   build_tree [(''a/x'', 1::nat), (''b/y'', 2), (''a/z'', 3), (''c'', 4)] =
     Some (FileNode ''a'' Directory
       (Some [FileNode ''x'' File None ''a/x'', FileNode ''z'' File None ''a/z'']) ''a'') \<and>
   children (build_root [(''a/x'', 1::nat), (''b/y'', 2), (''a/z'', 3), (''c'', 4)]) =
     Some [FileNode ''a'' Directory
             (Some [FileNode ''x'' File None ''a/x'', FileNode ''z'' File None ''a/z'']) ''a'',
           FileNode ''b'' Directory (Some [FileNode ''y'' File None ''b/y'']) ''b'',
           FileNode ''c'' File None ''c'']"
proof -
  let ?fs = "[(''a/x'', 1::nat), (''b/y'', 2), (''a/z'', 3), (''c'', 4)]"
  have h: "?fs \<noteq> []" by simp
  have flt: "filter (\<lambda>e. top (fst e) = top (fst (hd ?fs))) ?fs = [(''a/x'', 1), (''a/z'', 3)]"
    by (simp add: top_def)
  from first_top_level_entry_only[of ?fs]
  have eq: "build_tree ?fs = build_tree [(''a/x'', 1::nat), (''a/z'', 3)]"
    unfolding flt by blast
  have small: "build_tree [(''a/x'', 1::nat), (''a/z'', 3)] =
     Some (FileNode ''a'' Directory
       (Some [FileNode ''x'' File None ''a/x'', FileNode ''z'' File None ''a/z'']) ''a'')"
    by (simp add: build_defs)
  have r: "children (build_root ?fs) =
     Some [FileNode ''a'' Directory
             (Some [FileNode ''x'' File None ''a/x'', FileNode ''z'' File None ''a/z'']) ''a'',
           FileNode ''b'' Directory (Some [FileNode ''y'' File None ''b/y'']) ''b'',
           FileNode ''c'' File None ''c'']"
    by (simp add: build_defs)
  show ?thesis using h eq small r by simp
qed

section \<open>One root\<close>

lemma bare_top: "top p = s \<Longrightarrow> p \<noteq> s \<Longrightarrow> tl (split p) \<noteq> []"
proof
  assume t: "top p = s" and ne: "p \<noteq> s" and "tl (split p) = []"
  then have "split p = [s]" using split_hd_tl[of p] by simp
  then have "join (split p) = s" by simp
  then show False using ne by simp
qed

lemma add_entry_single:
  assumes "children t = Some [c0]" and "name c0 = top (fst e)" and "tl (split (fst e)) \<noteq> []"
  shows "children (add_entry e t) = Some [advance e c0]"
proof -
  have "walk (fst e) [] (top (fst e) # tl (split (fst e))) t =
     FileNode (name t) (type t)
       (Some [walk (fst e) [top (fst e)] (tl (split (fst e))) c0]) (path t)"
    using assms by (simp add: walk_Cons[OF assms(3)])
  then show ?thesis
    unfolding add_entry_def using split_hd_tl[of "fst e"] assms(2,3) by (simp add: advance_def)
qed

lemma fold_add_entry_single:
  "children t = Some [c0] \<Longrightarrow> name c0 = s \<Longrightarrow>
   \<forall>e\<in>set fs. top (fst e) = s \<and> fst e \<noteq> s \<Longrightarrow>
   children (fold add_entry fs t) = Some [fold advance fs c0]"
proof (induction fs arbitrary: t c0)
  case Nil
  then show ?case by simp
next
  case (Cons e fs)
  have "tl (split (fst e)) \<noteq> []" using Cons.prems(3) by (intro bare_top[of _ s]) simp_all
  then have "children (add_entry e t) = Some [advance e c0]"
    using Cons.prems by (intro add_entry_single) simp_all
  from Cons.IH[OF this] show ?case using Cons.prems by simp
qed

text \<open>
  Claim C1, as amended. For every non-empty mapping with \<open>N\<close> unique paths that share
  their top-level segment, in which no path is a proper slash-prefix of a later path
  and no path after the first is the bare top-level segment, the root that the
  builder leaves has exactly one child, that child is the tree returned, it carries
  the shared segment as its name, and it holds \<open>N\<close> file nodes.
\<close>

theorem one_root_all_files:
  assumes "fs \<noteq> []"
    and "distinct (map fst fs)"
    and "\<forall>p\<in>fst ` set fs. top p = s"
    and "no_prefix_of_later (map fst fs)"
    and "s \<notin> fst ` set (tl fs)"
  shows "\<exists>t. children (build_root fs) = Some [t] \<and> build_tree fs = Some t \<and> name t = s \<and>
             count_files t = length fs"
proof -
  obtain e rest where fs: "fs = e # rest" using assms(1) by (cases fs) auto
  from add_entry_root[of e] obtain c0 where
    c0: "children (add_entry e root) = Some [c0]" "name c0 = top (fst e)" by blast
  have s: "name c0 = s" using c0(2) assms(3) fs by simp
  have "\<forall>x\<in>set rest. top (fst x) = s \<and> fst x \<noteq> s"
  proof
    fix x assume x: "x \<in> set rest"
    then have "fst x \<in> fst ` set fs" by (simp add: fs)
    then have "top (fst x) = s" using assms(3) by blast
    moreover have "fst x \<in> fst ` set (tl fs)" using x by (simp add: fs)
    then have "fst x \<noteq> s" using assms(5) by blast
    ultimately show "top (fst x) = s \<and> fst x \<noteq> s" by simp
  qed
  from fold_add_entry_single[OF c0(1) s this]
  have cs: "children (build_root fs) = Some [fold advance rest c0]"
    by (simp add: fs build_root_def)
  let ?t = "fold advance rest c0"
  have "count_files (build_root fs) = length fs" using assms(4) by (rule count_files_build)
  then have cnt: "count_files ?t = length fs"
    using cs by (simp add: count_files_alt[of "build_root fs"])
  have "build_tree fs = Some ?t" using cs by (simp add: build_tree_def first_child_def)
  then show ?thesis using cs cnt s by simp
qed

theorem one_root_all_files_witness:
  "[(''a/b/c'', 1::nat), (''a/d'', 2), (''a/b'', 3)] \<noteq> [] \<and>
   distinct (map fst [(''a/b/c'', 1::nat), (''a/d'', 2), (''a/b'', 3)]) \<and>
   top ''a/b/c'' = ''a'' \<and> top ''a/d'' = ''a'' \<and> top ''a/b'' = ''a'' \<and>
   no_prefix_of_later (map fst [(''a/b/c'', 1::nat), (''a/d'', 2), (''a/b'', 3)]) \<and>
   ''a'' \<notin> fst ` set (tl [(''a/b/c'', 1::nat), (''a/d'', 2), (''a/b'', 3)]) \<and>
   is_proper_slash_prefix ''a/b'' ''a/b/c'' \<and>
   build_tree [(''a/b/c'', 1::nat), (''a/d'', 2), (''a/b'', 3)] =
     Some (FileNode ''a'' Directory
       (Some [FileNode ''b'' Directory (Some [FileNode ''c'' File None ''a/b/c'']) ''a/b'',
              FileNode ''d'' File None ''a/d'',
              FileNode ''b'' File None ''a/b''])
       ''a'') \<and>
   count_files (FileNode ''a'' Directory
       (Some [FileNode ''b'' Directory (Some [FileNode ''c'' File None ''a/b/c'']) ''a/b'',
              FileNode ''d'' File None ''a/d'',
              FileNode ''b'' File None ''a/b''])
       ''a'') = 3"
proof -
  let ?fs = "[(''a/b/c'', 1::nat), (''a/d'', 2), (''a/b'', 3)]"
  have h1: "?fs \<noteq> []" by simp
  have h2: "distinct (map fst ?fs)" by simp
  have tops: "top ''a/b/c'' = ''a''" "top ''a/d'' = ''a''" "top ''a/b'' = ''a''"
    by (simp_all add: top_def)
  then have h3: "\<forall>p\<in>fst ` set ?fs. top p = ''a''" by simp
  have h4: "no_prefix_of_later (map fst ?fs)" by (simp add: is_proper_slash_prefix_def)
  have h5: "''a'' \<notin> fst ` set (tl ?fs)" by simp
  have h6: "is_proper_slash_prefix ''a/b'' ''a/b/c''" by (simp add: is_proper_slash_prefix_def)
  from one_root_all_files[OF h1 h2 h3 h4 h5]
  obtain t where t: "build_tree ?fs = Some t" "count_files t = length ?fs" by blast
  have b: "build_tree ?fs =
     Some (FileNode ''a'' Directory
       (Some [FileNode ''b'' Directory (Some [FileNode ''c'' File None ''a/b/c'']) ''a/b'',
              FileNode ''d'' File None ''a/d'',
              FileNode ''b'' File None ''a/b''])
       ''a'')"
    by (simp add: build_defs)
  have "count_files (FileNode ''a'' Directory
       (Some [FileNode ''b'' Directory (Some [FileNode ''c'' File None ''a/b/c'']) ''a/b'',
              FileNode ''d'' File None ''a/d'',
              FileNode ''b'' File None ''a/b''])
       ''a'') = 3"
    using t unfolding b by simp
  then show ?thesis using h1 h2 tops h4 h5 h6 b by blast
qed

text \<open>
  Each added condition is needed. The walk for \<open>a/b/c\<close> after \<open>a/b\<close> runs into the
  file \<open>b\<close>, whose \<^verbatim>\<open>children\<close> are absent, and adds nothing: two paths, one file
  node. The bare segment \<open>a\<close> after \<open>a/b\<close> is pushed as a second child of the root:
  two root nodes, and one file node in the tree returned. The empty mapping shares
  its top-level segment vacuously and leaves no root node at all.
\<close>

theorem shadowed_file_not_counted_counterexample:
  "distinct (map fst [(''a/b'', 1::nat), (''a/b/c'', 2)]) \<and>
   top ''a/b'' = ''a'' \<and> top ''a/b/c'' = ''a'' \<and>
   build_tree [(''a/b'', 1::nat), (''a/b/c'', 2)] =
     Some (FileNode ''a'' Directory (Some [FileNode ''b'' File None ''a/b'']) ''a'') \<and>
   count_files (FileNode ''a'' Directory (Some [FileNode ''b'' File None ''a/b'']) ''a'') = 1 \<and>
   length [(''a/b'', 1::nat), (''a/b/c'', 2)] = 2 \<and>
   distinct (map fst [(''a/b'', 1::nat), (''a'', 2)]) \<and>
   top ''a'' = ''a'' \<and>
   children (build_root [(''a/b'', 1::nat), (''a'', 2)]) =
     Some [FileNode ''a'' Directory (Some [FileNode ''b'' File None ''a/b'']) ''a'',
           FileNode ''a'' File None ''a''] \<and>
   children (build_root ([] :: (string \<times> nat) list)) = Some [] \<and>
   build_tree ([] :: (string \<times> nat) list) = None"
  by (simp add: build_defs top_def)

section \<open>Shared directories\<close>

lemma descend_name: "descend t segs = Some d \<Longrightarrow> segs \<noteq> [] \<Longrightarrow> name d = last segs"
proof (induction segs arbitrary: t)
  case Nil
  then show ?case by simp
next
  case (Cons s ss)
  then obtain cs c where c: "children t = Some cs" "find (\<lambda>c. name c = s) cs = Some c"
    "descend c ss = Some d" by (auto split: option.splits)
  show ?case
  proof (cases "ss = []")
    case True
    then show ?thesis using c find_Some_P[OF c(2)] by simp
  next
    case False
    then show ?thesis using Cons.IH[OF c(3)] by simp
  qed
qed

lemma descend_append:
  "descend t (xs @ ys) = (case descend t xs of None \<Rightarrow> None | Some d \<Rightarrow> descend d ys)"
  by (induction xs arbitrary: t) (auto split: option.splits)

lemma kinds_ok_alt:
  "kinds_ok t =
     (case children t of
        None \<Rightarrow> type t = File
      | Some cs \<Rightarrow> type t = Directory \<and> list_all kinds_ok cs)"
  by (cases t) (simp split: option.splits)

lemma kinds_ok_walk: "kinds_ok t \<Longrightarrow> kinds_ok (walk p pre parts t)"
proof (induction p pre parts t rule: walk.induct)
  case (1 p pre current)
  then show ?case by simp
next
  case (2 p pre part current)
  then show ?case by (auto simp: kinds_ok_alt[of current] split: option.splits)
next
  case (3 p pre part v va current)
  show ?case
  proof (cases "children current")
    case None
    then show ?thesis using 3(3) by simp
  next
    case (Some cs)
    note cs = this
    have ty: "type current = Directory" and all: "list_all kinds_ok cs"
      using 3(3) cs by (simp_all add: kinds_ok_alt[of current])
    show ?thesis
    proof (cases "find (\<lambda>c. name c = part) cs")
      case None
      have "kinds_ok (FileNode part Directory (Some []) (join (pre @ [part])))" by simp
      from "3.IH"(1)[OF cs None this] show ?thesis using cs None ty all by simp
    next
      case (Some child)
      have "kinds_ok child" using all find_Some_mem[OF Some] by (simp add: list_all_iff)
      from "3.IH"(2)[OF cs Some this] show ?thesis
        using cs Some ty all by (simp add: list_all_replace_first)
    qed
  qed
qed

lemma kinds_ok_build: "kinds_ok (build_root fs)"
proof -
  have "kinds_ok t \<Longrightarrow> kinds_ok (fold add_entry fs t)" for t
    by (induction fs arbitrary: t) (simp_all add: add_entry_def kinds_ok_walk)
  then show ?thesis by (simp add: build_root_def root_def)
qed

lemma kinds_ok_descend: "kinds_ok t \<Longrightarrow> descend t segs = Some d \<Longrightarrow> kinds_ok d"
proof (induction segs arbitrary: t)
  case Nil
  then show ?case by simp
next
  case (Cons s ss)
  then obtain cs c where c: "children t = Some cs" "find (\<lambda>c. name c = s) cs = Some c"
    "descend c ss = Some d" by (auto split: option.splits)
  have "kinds_ok c"
    using Cons.prems(1) c(1) find_Some_mem[OF c(2)] by (simp add: kinds_ok_alt[of t] list_all_iff)
  from Cons.IH[OF this c(3)] show ?case .
qed

lemma node_ok_descend:
  "children_ok keys pre t \<Longrightarrow> kinds_ok t \<Longrightarrow> descend t segs = Some d \<Longrightarrow> segs \<noteq> [] \<Longrightarrow>
   node_ok keys (pre @ butlast segs) d"
proof (induction segs arbitrary: t pre)
  case Nil
  then show ?case by simp
next
  case (Cons s ss)
  then obtain cs c where c: "children t = Some cs" "find (\<lambda>c. name c = s) cs = Some c"
    "descend c ss = Some d" by (auto split: option.splits)
  have mem: "c \<in> set cs" by (rule find_Some_mem[OF c(2)])
  have nc: "name c = s" by (rule find_Some_P[OF c(2)])
  have ok: "node_ok keys pre c"
    using Cons.prems(1) c(1) mem by (simp add: children_ok_def list_all_iff)
  have kc: "kinds_ok c"
    using Cons.prems(2) c(1) mem by (simp add: kinds_ok_alt[of t] list_all_iff)
  show ?case
  proof (cases "ss = []")
    case True
    then show ?thesis using ok c(3) by simp
  next
    case False
    then have "children c \<noteq> None" using c(3) by (cases ss) (auto split: option.splits)
    then have "type c = Directory" using kc by (auto simp: kinds_ok_alt[of c])
    then have "children_ok keys (pre @ [s]) c" using ok nc by (simp add: node_ok_alt[of _ _ c])
    from Cons.IH[OF this kc c(3) False] show ?thesis using False by simp
  qed
qed

lemma descend_dir_fields:
  assumes "descend (build_root fs) segs = Some d" "segs \<noteq> []" "children d \<noteq> None"
  shows "type d = Directory \<and> name d = last segs \<and> path d = join segs"
proof -
  have k: "kinds_ok d" using kinds_ok_build assms(1) by (rule kinds_ok_descend)
  then have ty: "type d = Directory" using assms(3) by (auto simp: kinds_ok_alt[of d])
  have nm: "name d = last segs" using assms(1,2) by (rule descend_name)
  have "node_ok (map fst fs) ([] @ butlast segs) d"
    using children_ok_build kinds_ok_build assms(1,2) by (rule node_ok_descend)
  then have "path d = join (butlast segs @ [name d])" using ty by (simp add: node_ok_alt[of _ _ d])
  then have "path d = join segs" using nm assms(2) by simp
  then show ?thesis using ty nm by simp
qed

lemma descend_walk_same:
  "descend t segs = Some d \<Longrightarrow>
   \<exists>pre' parts'. descend (walk p pre parts t) segs = Some (walk p pre' parts' d)"
proof (induction p pre parts t arbitrary: segs d rule: walk.induct)
  case (1 p pre current)
  then have "descend (walk p pre [] current) segs = Some (walk p [] [] d)" by simp
  then show ?case by blast
next
  case (2 p pre part current)
  show ?case
  proof (cases segs)
    case Nil
    then have "descend (walk p pre [part] current) segs = Some (walk p pre [part] d)"
      using 2 by simp
    then show ?thesis by blast
  next
    case (Cons s ss)
    then obtain cs c where c: "children current = Some cs"
      "find (\<lambda>c. name c = s) cs = Some c" "descend c ss = Some d"
      using 2 by (auto split: option.splits)
    then have "descend (walk p pre [part] current) segs = Some (walk p [] [] d)"
      using Cons by (simp add: find_snoc)
    then show ?thesis by blast
  qed
next
  case (3 p pre part v va current)
  show ?case
  proof (cases segs)
    case Nil
    then have "descend (walk p pre (part # v # va) current) segs
                 = Some (walk p pre (part # v # va) d)"
      using 3(3) by simp
    then show ?thesis by blast
  next
    case (Cons s ss)
    then obtain cs c where cs: "children current = Some cs" and
      fs: "find (\<lambda>c. name c = s) cs = Some c" and dc: "descend c ss = Some d"
      using 3(3) by (auto split: option.splits)
    show ?thesis
    proof (cases "find (\<lambda>c. name c = part) cs")
      case None
      then have "descend (walk p pre (part # v # va) current) segs = Some (walk p [] [] d)"
        using cs fs dc Cons by (simp add: find_snoc)
      then show ?thesis by blast
    next
      case (Some child)
      note fc = this
      have nc: "name child = part" using find_Some_P[OF fc] .
      let ?w = "walk p (pre @ [part]) (v # va) child"
      show ?thesis
      proof (cases "s = part")
        case True
        then have "child = c" using fs fc by simp
        then obtain pre' parts' where
          w: "descend ?w ss = Some (walk p pre' parts' d)"
          using "3.IH"(2)[OF cs fc, of ss d] dc by blast
        have "find (\<lambda>c. name c = part) (replace_first (\<lambda>c. name c = part) ?w cs) = Some ?w"
          using find_replace_first_hit[OF fc, of ?w] nc by simp
        then have "descend (walk p pre (part # v # va) current) segs
                     = Some (walk p pre' parts' d)"
          using cs fc Cons True w by simp
        then show ?thesis by blast
      next
        case False
        then have "find (\<lambda>c. name c = s) (replace_first (\<lambda>c. name c = part) ?w cs)
                     = find (\<lambda>c. name c = s) cs"
          using find_name_replace_first[OF fc, of ?w s] nc by simp
        then have "descend (walk p pre (part # v # va) current) segs = Some (walk p [] [] d)"
          using cs fc Cons fs dc by simp
        then show ?thesis by blast
      qed
    qed
  qed
qed

lemma mem_replace_first:
  "x \<in> set cs \<Longrightarrow> find P cs = Some c \<Longrightarrow> (x = c \<Longrightarrow> y = c) \<Longrightarrow> x \<in> set (replace_first P y cs)"
  by (induction cs) (auto split: if_splits)

lemma leaf_child_kept:
  assumes "children d = Some cs" "x \<in> set cs" "children x = None"
  shows "\<exists>cs'. children (walk p pre parts d) = Some cs' \<and> x \<in> set cs'"
proof (cases parts)
  case Nil
  then show ?thesis using assms by simp
next
  case (Cons part rest)
  show ?thesis
  proof (cases "rest = []")
    case True
    then show ?thesis using Cons assms by simp
  next
    case False
    show ?thesis
    proof (cases "find (\<lambda>c. name c = part) cs")
      case None
      then show ?thesis using Cons False assms by (simp add: walk_Cons)
    next
      case (Some child)
      have "x \<in> set (replace_first (\<lambda>c. name c = part) (walk p (pre @ [part]) rest child) cs)"
        using assms(2) Some
      proof (rule mem_replace_first)
        assume "x = child"
        then show "walk p (pre @ [part]) rest child = child" using assms(3) by simp
      qed
      then show ?thesis using Cons False assms Some by (simp add: walk_Cons)
    qed
  qed
qed

lemma holds_file_walk: "holds_file t segs q \<Longrightarrow> holds_file (walk p pre parts t) segs q"
proof -
  assume "holds_file t segs q"
  then obtain d cs where d: "descend t (butlast segs) = Some d" "children d = Some cs"
    "FileNode (last segs) File None q \<in> set cs"
    by (auto simp: holds_file_def split: option.splits)
  from descend_walk_same[OF d(1), of p pre parts] obtain pre' parts' where
    w: "descend (walk p pre parts t) (butlast segs) = Some (walk p pre' parts' d)" by blast
  from leaf_child_kept[OF d(2,3), of p pre' parts'] obtain cs' where
    "children (walk p pre' parts' d) = Some cs'" "FileNode (last segs) File None q \<in> set cs'"
    by auto
  then show ?thesis using w by (simp add: holds_file_def)
qed

lemma holds_file_fold: "holds_file t segs q \<Longrightarrow> holds_file (fold add_entry fs t) segs q"
  by (induction fs arbitrary: t) (simp_all add: add_entry_def holds_file_walk)

lemma holds_file_Cons:
  "rest \<noteq> [] \<Longrightarrow>
   holds_file t (s # rest) q =
     (case children t of
        None \<Rightarrow> False
      | Some cs \<Rightarrow>
          (case find (\<lambda>c. name c = s) cs of None \<Rightarrow> False | Some c \<Rightarrow> holds_file c rest q))"
  by (simp add: holds_file_def split: option.splits)

lemma walk_holds_file:
  "parts \<noteq> [] \<Longrightarrow> \<not> stops t (butlast parts) \<Longrightarrow> holds_file (walk p pre parts t) parts p"
proof (induction p pre parts t rule: walk.induct)
  case (1 p pre current)
  then show ?case by simp
next
  case (2 p pre part current)
  then obtain cs where "children current = Some cs" by auto
  then show ?case by (simp add: holds_file_def)
next
  case (3 p pre part v va current)
  have ns: "\<not> stops current (part # butlast (v # va))" using 3(4) by simp
  then obtain cs where cs: "children current = Some cs" by (auto split: option.splits)
  show ?case
  proof (cases "find (\<lambda>c. name c = part) cs")
    case None
    let ?d = "FileNode part Directory (Some []) (join (pre @ [part]))"
    have "holds_file (walk p (pre @ [part]) (v # va) ?d) (v # va) p"
      by (rule "3.IH"(1)[OF cs None]) simp_all
    then show ?thesis using cs None by (simp add: holds_file_Cons find_snoc)
  next
    case (Some child)
    note fc = this
    have nc: "name child = part" using find_Some_P[OF fc] .
    let ?w = "walk p (pre @ [part]) (v # va) child"
    have "\<not> stops child (butlast (v # va))" using ns cs fc by simp
    then have h: "holds_file ?w (v # va) p" by (intro "3.IH"(2)[OF cs fc]) simp_all
    have "find (\<lambda>c. name c = part) (replace_first (\<lambda>c. name c = part) ?w cs) = Some ?w"
      using find_replace_first_hit[OF fc, of ?w] nc by simp
    then show ?thesis using cs fc h by (simp add: holds_file_Cons)
  qed
qed

lemma not_stops_before:
  assumes "\<forall>a\<in>fst ` set fs. \<not> is_proper_slash_prefix a p"
  shows "\<not> stops (build_root fs) (butlast (split p))"
proof
  assume "stops (build_root fs) (butlast (split p))"
  from stops_descend[OF this] obtain pre n where
    pre: "prefix pre (butlast (split p))" and
    n: "descend (build_root fs) pre = Some n" "children n = None" by blast
  have "pre \<noteq> []"
  proof
    assume "pre = []"
    then have "n = build_root fs" using n(1) by simp
    then show False using n(2) by simp
  qed
  from positions_fromD(1)[OF positions_from_build this n]
  obtain a where a: "a \<in> fst ` set fs" "split a = pre" by blast
  have "strict_prefix (split a) (split p)"
    unfolding a(2) using pre by (rule prefix_butlast_strict) simp
  then have "is_proper_slash_prefix a p" by (simp add: is_proper_slash_prefix_iff)
  then show False using a(1) assms by blast
qed

lemma first_entry_split:
  assumes "p \<in> fst ` set fs"
  shows "\<exists>e B. fs = takeWhile (\<lambda>e. fst e \<noteq> p) fs @ e # B \<and> fst e = p"
proof -
  let ?P = "\<lambda>e. fst e \<noteq> p"
  have "dropWhile ?P fs \<noteq> []" using assms by (auto simp: dropWhile_eq_Nil_conv)
  then obtain e B where eb: "dropWhile ?P fs = e # B" by (cases "dropWhile ?P fs") auto
  then have "\<not> ?P e" using hd_dropWhile[of ?P fs] by (metis list.sel(1) list.distinct(1))
  then have e: "fst e = p" by simp
  have "fs = takeWhile ?P fs @ e # B" using eb by (metis takeWhile_dropWhile_id)
  then have "fs = takeWhile ?P fs @ e # B \<and> fst e = p" using e by simp
  then show ?thesis by blast
qed

lemma holds_file_build:
  assumes "p \<in> fst ` set fs" "unshadowed fs p"
  shows "holds_file (build_root fs) (split p) p"
proof -
  let ?A = "takeWhile (\<lambda>e. fst e \<noteq> p) fs"
  from first_entry_split[OF assms(1)] obtain e B where
    fs: "fs = ?A @ e # B" and e: "fst e = p" by blast
  have "\<forall>a\<in>fst ` set ?A. \<not> is_proper_slash_prefix a p"
    using assms(2) by (auto simp: unshadowed_def list_all_iff)
  then have "\<not> stops (build_root ?A) (butlast (split p))" by (rule not_stops_before)
  then have "holds_file (walk p [] (split p) (build_root ?A)) (split p) p"
    by (intro walk_holds_file) simp_all
  then have "holds_file (add_entry e (build_root ?A)) (split p) p"
    using e by (simp add: add_entry_def)
  then have "holds_file (fold add_entry B (add_entry e (build_root ?A))) (split p) p"
    by (rule holds_file_fold)
  moreover have "build_root fs = fold add_entry B (add_entry e (build_root ?A))"
    by (subst fs) (simp add: build_root_def)
  ultimately show ?thesis by simp
qed

lemma holds_file_below:
  assumes "holds_file t segs q" "strict_prefix pre segs"
  shows "\<exists>d. descend t pre = Some d \<and> children d \<noteq> None \<and>
             holds_file d (drop (length pre) segs) q"
proof -
  obtain r where r: "segs = pre @ r" "r \<noteq> []"
    using assms(2) by (auto simp: strict_prefix_def prefix_def)
  have bl: "butlast segs = pre @ butlast r" using r by (simp add: butlast_append)
  from assms(1) obtain dp cs where dp: "descend t (butlast segs) = Some dp"
    "children dp = Some cs" "FileNode (last segs) File None q \<in> set cs"
    by (auto simp: holds_file_def split: option.splits)
  from dp(1) obtain d where d: "descend t pre = Some d" "descend d (butlast r) = Some dp"
    unfolding bl descend_append by (auto split: option.splits)
  have "children d \<noteq> None"
  proof (cases "butlast r")
    case Nil
    then show ?thesis using d(2) dp(2) by simp
  next
    case (Cons x xs)
    then show ?thesis using d(2) by (auto split: option.splits)
  qed
  moreover have "holds_file d r q"
    using d(2) dp(2,3) r by (simp add: holds_file_def)
  ultimately show ?thesis using d(1) r(1) by simp
qed

lemma shared_prefix_node:
  assumes "p \<in> fst ` set fs" "unshadowed fs p" "q \<in> fst ` set fs" "unshadowed fs q"
    and "pre \<noteq> []" "strict_prefix pre (split p)" "strict_prefix pre (split q)"
  shows "\<exists>d. descend (build_root fs) pre = Some d \<and> type d = Directory \<and>
             name d = last pre \<and> path d = join pre \<and>
             holds_file d (drop (length pre) (split p)) p \<and>
             holds_file d (drop (length pre) (split q)) q"
proof -
  from holds_file_below[OF holds_file_build[OF assms(1,2)] assms(6)]
  obtain d where d: "descend (build_root fs) pre = Some d" "children d \<noteq> None"
    "holds_file d (drop (length pre) (split p)) p" by blast
  from holds_file_below[OF holds_file_build[OF assms(3,4)] assms(7)]
  obtain d' where d': "descend (build_root fs) pre = Some d'"
    "holds_file d' (drop (length pre) (split q)) q" by blast
  have "d' = d" using d(1) d'(1) by simp
  then have "holds_file d (drop (length pre) (split q)) q" using d'(2) by simp
  moreover have "type d = Directory \<and> name d = last pre \<and> path d = join pre"
    using d(1) assms(5) d(2) by (rule descend_dir_fields)
  ultimately show ?thesis using d(1,3) by blast
qed

text \<open>
  Claim C2, as amended. Let \<open>p\<close> and \<open>q\<close> be paths of the mapping before each of which
  no proper slash-prefix of it is iterated. Then every non-empty sequence of
  directory segments that both begin with leads, by the first child of that name at
  each level, to one node; it is a directory, named after the last of these
  segments, with the joined segments as its \<^verbatim>\<open>path\<close>; and the remaining segments of
  \<open>p\<close> and of \<open>q\<close> lead from it to their file nodes. In every built tree no node has
  two directory children of the same name, and the paths \<open>a/b.txt\<close> and \<open>a/c.txt\<close>
  give the one directory \<open>a\<close> with both files.
\<close>

theorem shared_prefix_one_directory:
  assumes "p \<in> fst ` set fs" and "unshadowed fs p"
    and "q \<in> fst ` set fs" and "unshadowed fs q"
    and "pre \<noteq> []" and "strict_prefix pre (split p)" and "strict_prefix pre (split q)"
  shows "(\<exists>d. descend (build_root fs) pre = Some d \<and> type d = Directory \<and>
              name d = last pre \<and> path d = join pre \<and>
              holds_file d (drop (length pre) (split p)) p \<and>
              holds_file d (drop (length pre) (split q)) q) \<and>
         dirs_distinct (build_root fs) \<and>
         build_tree [(''a/b.txt'', x), (''a/c.txt'', y)] =
           Some (FileNode ''a'' Directory
             (Some [FileNode ''b.txt'' File None ''a/b.txt'',
                    FileNode ''c.txt'' File None ''a/c.txt''])
             ''a'')"
proof -
  have e: "build_tree [(''a/b.txt'', x), (''a/c.txt'', y)] =
           Some (FileNode ''a'' Directory
             (Some [FileNode ''b.txt'' File None ''a/b.txt'',
                    FileNode ''c.txt'' File None ''a/c.txt''])
             ''a'')"
    by (simp add: build_defs)
  show ?thesis using shared_prefix_node[OF assms] dirs_distinct_build[of fs] e by blast
qed

theorem shared_prefix_one_directory_witness:
  "''a/b/x.txt'' \<in> fst ` set [(''a/b/x.txt'', 1::nat), (''c/z'', 2), (''a/b/y.txt'', 3), (''a/b'', 4)] \<and>
   unshadowed [(''a/b/x.txt'', 1::nat), (''c/z'', 2), (''a/b/y.txt'', 3), (''a/b'', 4)] ''a/b/x.txt'' \<and>
   ''a/b/y.txt'' \<in> fst ` set [(''a/b/x.txt'', 1::nat), (''c/z'', 2), (''a/b/y.txt'', 3), (''a/b'', 4)] \<and>
   unshadowed [(''a/b/x.txt'', 1::nat), (''c/z'', 2), (''a/b/y.txt'', 3), (''a/b'', 4)] ''a/b/y.txt'' \<and>
   [''a'', ''b''] \<noteq> [] \<and>
   strict_prefix [''a'', ''b''] (split ''a/b/x.txt'') \<and>
   strict_prefix [''a'', ''b''] (split ''a/b/y.txt'') \<and>
   descend (build_root [(''a/b/x.txt'', 1::nat), (''c/z'', 2), (''a/b/y.txt'', 3), (''a/b'', 4)])
       [''a'', ''b''] =
     Some (FileNode ''b'' Directory
       (Some [FileNode ''x.txt'' File None ''a/b/x.txt'',
              FileNode ''y.txt'' File None ''a/b/y.txt''])
       ''a/b'') \<and>
   holds_file (FileNode ''b'' Directory
       (Some [FileNode ''x.txt'' File None ''a/b/x.txt'',
              FileNode ''y.txt'' File None ''a/b/y.txt''])
       ''a/b'') [''x.txt''] ''a/b/x.txt'' \<and>
   holds_file (FileNode ''b'' Directory
       (Some [FileNode ''x.txt'' File None ''a/b/x.txt'',
              FileNode ''y.txt'' File None ''a/b/y.txt''])
       ''a/b'') [''y.txt''] ''a/b/y.txt''"
proof -
  let ?fs = "[(''a/b/x.txt'', 1::nat), (''c/z'', 2), (''a/b/y.txt'', 3), (''a/b'', 4)]"
  let ?b = "FileNode ''b'' Directory
       (Some [FileNode ''x.txt'' File None ''a/b/x.txt'',
              FileNode ''y.txt'' File None ''a/b/y.txt''])
       ''a/b''"
  have h1: "''a/b/x.txt'' \<in> fst ` set ?fs" by simp
  have h2: "unshadowed ?fs ''a/b/x.txt''" by (simp add: unshadowed_def is_proper_slash_prefix_def)
  have h3: "''a/b/y.txt'' \<in> fst ` set ?fs" by simp
  have h4: "unshadowed ?fs ''a/b/y.txt''" by (simp add: unshadowed_def is_proper_slash_prefix_def)
  have h5: "[''a'', ''b''] \<noteq> []" by simp
  have h6: "strict_prefix [''a'', ''b''] (split ''a/b/x.txt'')" by simp
  have h7: "strict_prefix [''a'', ''b''] (split ''a/b/y.txt'')" by simp
  have d: "descend (build_root ?fs) [''a'', ''b''] = Some ?b"
    by (simp add: build_defs)
  have "\<exists>d. descend (build_root ?fs) [''a'', ''b''] = Some d \<and> type d = Directory \<and>
          name d = last [''a'', ''b''] \<and> path d = join [''a'', ''b''] \<and>
          holds_file d (drop (length [''a'', ''b'']) (split ''a/b/x.txt'')) ''a/b/x.txt'' \<and>
          holds_file d (drop (length [''a'', ''b'']) (split ''a/b/y.txt'')) ''a/b/y.txt''"
    by (rule conjunct1[OF shared_prefix_one_directory[OF h1 h2 h3 h4 h5 h6 h7]])
  then obtain d' where all: "descend (build_root ?fs) [''a'', ''b''] = Some d' \<and>
          type d' = Directory \<and>
          name d' = last [''a'', ''b''] \<and> path d' = join [''a'', ''b''] \<and>
          holds_file d' (drop (length [''a'', ''b'']) (split ''a/b/x.txt'')) ''a/b/x.txt'' \<and>
          holds_file d' (drop (length [''a'', ''b'']) (split ''a/b/y.txt'')) ''a/b/y.txt''" ..
  have d'1: "descend (build_root ?fs) [''a'', ''b''] = Some d'"
    using all by (elim conjE)
  have d'2: "holds_file d' (drop (length [''a'', ''b'']) (split ''a/b/x.txt'')) ''a/b/x.txt''"
    using all by (elim conjE)
  have d'3: "holds_file d' (drop (length [''a'', ''b'']) (split ''a/b/y.txt'')) ''a/b/y.txt''"
    using all by (elim conjE)
  have eq: "d' = ?b" using d d'1 by simp
  have x: "holds_file ?b [''x.txt''] ''a/b/x.txt''" using d'2 unfolding eq by simp
  have y: "holds_file ?b [''y.txt''] ''a/b/y.txt''" using d'3 unfolding eq by simp
  show ?thesis
    by (intro conjI) (rule h1 h2 h3 h4 h5 h6 h7 d x y)+
qed

text \<open>
  For every mapping the claim fails: after \<open>a/b\<close> the shared level \<open>a/b\<close> of \<open>a/b/c\<close>
  and \<open>a/b/d\<close> is the file node \<open>b\<close>; its \<^verbatim>\<open>children\<close> are absent, and neither path
  reaches a directory there or leaves a node in the tree.
\<close>

theorem shared_level_is_file_counterexample:
  "strict_prefix [''a'', ''b''] (split ''a/b/c'') \<and>
   strict_prefix [''a'', ''b''] (split ''a/b/d'') \<and>
   distinct (map fst [(''a/b'', 1::nat), (''a/b/c'', 2), (''a/b/d'', 3)]) \<and>
   descend (build_root [(''a/b'', 1::nat), (''a/b/c'', 2), (''a/b/d'', 3)]) [''a'', ''b''] =
     Some (FileNode ''b'' File None ''a/b'') \<and>
   build_tree [(''a/b'', 1::nat), (''a/b/c'', 2), (''a/b/d'', 3)] =
     Some (FileNode ''a'' Directory (Some [FileNode ''b'' File None ''a/b'']) ''a'')"
  by (simp add: build_defs)

end
